theory Spec2Isabelle
  imports Complex_Main "HOL-Library.AList" "HOL-Library.Multiset"
begin

section \<open>Entity models (threadmap/models.py)\<close>

text \<open>
  The enumerations of \<^verbatim>\<open>models.py\<close> are datatypes, the pydantic classes are records.
  A Python \<^verbatim>\<open>float\<close> field is modelled by the rational number it denotes (finite
  values, exact arithmetic); \<^verbatim>\<open>X | None\<close> is an \<open>option\<close>. The field \<^verbatim>\<open>id\<close> is
  written \<open>id'\<close>, since \<open>id\<close> is the identity function of HOL.
\<close>

type_synonym pyfloat = rat

datatype ActorType = STATE | PROXY | HACKTIVIST | CRIMINAL | AUTOMATED | INSIDER

datatype ActionDomain = CYBER | COGNITIVE | PHYSICAL | HYBRID

datatype CapabilityType = EXPLOIT | TOOLING | TRADECRAFT | ACCESS | DATA

datatype InfrastructureType =
  SOCIAL_MEDIA | EMAIL | MESSAGING | SERVER | DOMAIN | PHYSICAL_INFRA | MEDIA | GOVERNMENT

datatype NarrativeType = DISINFORMATION | PROPAGANDA | LEAK | AMPLIFICATION | FRAMING

datatype EffectType =
  BEHAVIORAL_CHANGE | DATA_LOSS | ACCESS_GAINED | REPUTATION_DAMAGE
  | OPERATIONAL_DISRUPTION | NARRATIVE_ADOPTION

datatype EdgeType = DEPENDENCY | ENABLES | AMPLIFIES | TRIGGERS

record Actor =
  id' :: string
  name :: string
  actor_type :: ActorType
  capabilities :: "string list"
  known_aliases :: "string list"
  attribution_confidence :: pyfloat

record Action =
  id' :: string
  name :: string
  description :: string
  domain :: ActionDomain
  attack_ids :: "string list"
  disarm_ids :: "string list"
  sct_codes :: "string list"
  actor_id :: "string option"
  platform_id :: "string option"
  tools :: "string list"
  duration_hours :: "pyfloat option"
  success_probability :: pyfloat
  detection_surface :: "string list"

record Capability =
  id' :: string
  name :: string
  capability_type :: CapabilityType
  description :: string
  perishable :: bool
  ttl_hours :: "pyfloat option"

record Infrastructure =
  id' :: string
  name :: string
  infra_type :: InfrastructureType
  reach_estimate :: "string option"
  detection_difficulty :: pyfloat

record Narrative =
  id' :: string
  name :: string
  narrative_type :: NarrativeType
  description :: string
  target_audience :: "string option"
  sct_codes :: "string list"
  platforms :: "string list"

record Target =
  id' :: string
  name :: string
  target_type :: string
  description :: string
  vulnerabilities :: "string list"

record Effect =
  id' :: string
  name :: string
  effect_type :: EffectType
  description :: string
  severity :: pyfloat
  reversibility :: pyfloat

record Relationship =
  source_id :: string
  target_id :: string
  edge_type :: EdgeType
  resource_id :: "string option"
  description :: string

text \<open>\<^verbatim>\<open>Entity = Actor | Action | Capability | Infrastructure | Narrative | Target | Effect\<close>\<close>

datatype Entity =
  EActor Actor
  | EAction Action
  | ECapability Capability
  | EInfrastructure Infrastructure
  | ENarrative Narrative
  | ETarget Target
  | EEffect Effect

text \<open>\<^verbatim>\<open>entity.id\<close>, \<^verbatim>\<open>entity.name\<close> and \<^verbatim>\<open>type(entity).__name__\<close> on the union.\<close>

fun entity_id :: "Entity \<Rightarrow> string" where
  "entity_id (EActor e) = Actor.id' e"
| "entity_id (EAction e) = Action.id' e"
| "entity_id (ECapability e) = Capability.id' e"
| "entity_id (EInfrastructure e) = Infrastructure.id' e"
| "entity_id (ENarrative e) = Narrative.id' e"
| "entity_id (ETarget e) = Target.id' e"
| "entity_id (EEffect e) = Effect.id' e"

fun entity_name :: "Entity \<Rightarrow> string" where
  "entity_name (EActor e) = Actor.name e"
| "entity_name (EAction e) = Action.name e"
| "entity_name (ECapability e) = Capability.name e"
| "entity_name (EInfrastructure e) = Infrastructure.name e"
| "entity_name (ENarrative e) = Narrative.name e"
| "entity_name (ETarget e) = Target.name e"
| "entity_name (EEffect e) = Effect.name e"

fun type_name :: "Entity \<Rightarrow> string" where
  "type_name (EActor e) = ''Actor''"
| "type_name (EAction e) = ''Action''"
| "type_name (ECapability e) = ''Capability''"
| "type_name (EInfrastructure e) = ''Infrastructure''"
| "type_name (ENarrative e) = ''Narrative''"
| "type_name (ETarget e) = ''Target''"
| "type_name (EEffect e) = ''Effect''"

section \<open>Errors\<close>

text \<open>
  Every exception the modelled code can raise is a value. \<^verbatim>\<open>chain.py\<close> raises
  \<^verbatim>\<open>ValueError\<close> with a message, both for a relationship whose endpoint is missing
  and for an ordering query on a cyclic graph; the other constructors are the
  exceptions of the graph library.
\<close>

datatype py_error =
  ValueError string
  | RuntimeError
  | NetworkXUnfeasible
  | NetworkXNoPath
  | NetworkXUnbounded
  | NetworkXError
  | NodeNotFound

section \<open>The directed graph (\<^verbatim>\<open>nx.DiGraph\<close>)\<close>

text \<open>
  \<^verbatim>\<open>chain.py\<close> stores the topology in a \<^verbatim>\<open>networkx.DiGraph\<close>. The library keeps three
  insertion-ordered dictionaries: node to attribute dictionary, and the two adjacency
  dictionaries \<^verbatim>\<open>_succ[u][v]\<close> and \<^verbatim>\<open>_pred[v][u]\<close>, which share one attribute dictionary
  per edge and receive their entries in the same call of \<^verbatim>\<open>add_edge\<close>. The model keeps
  the nodes as an association list in insertion order and the edges as one association
  list keyed by \<open>(u, v)\<close> in insertion order: \<^verbatim>\<open>_succ[u]\<close> is the subsequence of the
  edges with source \<open>u\<close>, \<^verbatim>\<open>_pred[v]\<close> the subsequence with target \<open>v\<close>. Assigning to
  a key that exists keeps its position, as \<open>AList.update\<close> does.

  An attribute dictionary has optional keys: \<^verbatim>\<open>add_node\<close> and \<^verbatim>\<open>add_edge\<close> without
  keyword arguments create an empty one.
\<close>

type_synonym node = string

record node_attr =
  entity_type :: "string option"
  data :: "Entity option"

record edge_attr =
  edge_type :: "EdgeType option"
  resource_id :: "string option option"
  description :: "string option"

record digraph =
  nodes :: "(node \<times> node_attr) list"
  edges :: "((node \<times> node) \<times> edge_attr) list"

definition no_node_attr :: node_attr where
  "no_node_attr = \<lparr>entity_type = None, data = None\<rparr>"

definition no_edge_attr :: edge_attr where
  "no_edge_attr = \<lparr>edge_type = None, resource_id = None, description = None\<rparr>"

definition empty_graph :: digraph where
  "empty_graph = \<lparr>nodes = [], edges = []\<rparr>"

text \<open>\<^verbatim>\<open>dict.update\<close> on attribute dictionaries: a key that is given replaces the old value.\<close>

definition update_node_attr :: "node_attr \<Rightarrow> node_attr \<Rightarrow> node_attr" where
  "update_node_attr old new =
     \<lparr>entity_type = (case entity_type new of None \<Rightarrow> entity_type old | Some x \<Rightarrow> Some x),
      data = (case data new of None \<Rightarrow> data old | Some x \<Rightarrow> Some x)\<rparr>"

definition update_edge_attr :: "edge_attr \<Rightarrow> edge_attr \<Rightarrow> edge_attr" where
  "update_edge_attr old new =
     \<lparr>edge_type = (case edge_attr.edge_type new of None \<Rightarrow> edge_attr.edge_type old | Some x \<Rightarrow> Some x),
      resource_id = (case edge_attr.resource_id new of None \<Rightarrow> edge_attr.resource_id old | Some x \<Rightarrow> Some x),
      description = (case edge_attr.description new of None \<Rightarrow> edge_attr.description old | Some x \<Rightarrow> Some x)\<rparr>"

definition node_ids :: "digraph \<Rightarrow> node list" where
  "node_ids G = map fst (nodes G)"

definition edge_keys :: "digraph \<Rightarrow> (node \<times> node) list" where
  "edge_keys G = map fst (edges G)"

text \<open>\<^verbatim>\<open>n in G\<close>\<close>

definition has_node :: "digraph \<Rightarrow> node \<Rightarrow> bool" where
  "has_node G n = (n \<in> set (node_ids G))"

text \<open>
  \<^verbatim>\<open>G.add_node(n, **attr)\<close>: a new node is appended with the given attributes, an
  existing node keeps its position and its attribute dictionary is updated.
\<close>

definition add_node :: "digraph \<Rightarrow> node \<Rightarrow> node_attr \<Rightarrow> digraph" where
  "add_node G n attr =
     (case map_of (nodes G) n of
        None \<Rightarrow> G\<lparr>nodes := nodes G @ [(n, update_node_attr no_node_attr attr)]\<rparr>
      | Some old \<Rightarrow> G\<lparr>nodes := AList.update n (update_node_attr old attr) (nodes G)\<rparr>)"

text \<open>
  \<^verbatim>\<open>G.add_edge(u, v, **attr)\<close>: endpoints that are not nodes yet are added with empty
  attributes (first \<open>u\<close>, then \<open>v\<close>); the attribute dictionary of the edge, empty if
  the edge is new, is updated and stored under \<open>(u, v)\<close>.
\<close>

definition add_edge :: "digraph \<Rightarrow> node \<Rightarrow> node \<Rightarrow> edge_attr \<Rightarrow> digraph" where
  "add_edge G u v attr =
     (let G1 = (if has_node G u then G else G\<lparr>nodes := nodes G @ [(u, no_node_attr)]\<rparr>);
          G2 = (if has_node G1 v then G1 else G1\<lparr>nodes := nodes G1 @ [(v, no_node_attr)]\<rparr>);
          datadict = (case map_of (edges G2) (u, v) of None \<Rightarrow> no_edge_attr | Some d \<Rightarrow> d)
      in G2\<lparr>edges := AList.update (u, v) (update_edge_attr datadict attr) (edges G2)\<rparr>)"

text \<open>\<^verbatim>\<open>G.successors(n)\<close> (also \<^verbatim>\<open>G.neighbors(n)\<close>, \<^verbatim>\<open>G[n]\<close>) and \<^verbatim>\<open>G.predecessors(n)\<close>.\<close>

definition successors :: "digraph \<Rightarrow> node \<Rightarrow> node list" where
  "successors G n = map snd (filter (\<lambda>e. fst e = n) (edge_keys G))"

definition predecessors :: "digraph \<Rightarrow> node \<Rightarrow> node list" where
  "predecessors G n = map fst (filter (\<lambda>e. snd e = n) (edge_keys G))"

definition in_degree :: "digraph \<Rightarrow> node \<Rightarrow> nat" where
  "in_degree G n = length (predecessors G n)"

definition out_degree :: "digraph \<Rightarrow> node \<Rightarrow> nat" where
  "out_degree G n = length (successors G n)"

text \<open>
  \<^verbatim>\<open>G.edges(data=True)\<close> iterates over the nodes in insertion order and, for each,
  over its successors in insertion order.
\<close>

definition edges_data :: "digraph \<Rightarrow> ((node \<times> node) \<times> edge_attr) list" where
  "edges_data G = concat (map (\<lambda>n. filter (\<lambda>e. fst (fst e) = n) (edges G)) (node_ids G))"

section \<open>The chain (threadmap/chain.py)\<close>

text \<open>
  \<^verbatim>\<open>self._entities\<close> is an insertion-ordered dictionary from id to entity, an
  association list here (field \<open>entities_dict\<close>). Methods that mutate the chain
  return the new chain; \<^verbatim>\<open>add_relationship\<close>, which can raise, returns its outcome
  together with the chain as the call leaves it.
\<close>

record HybridChain =
  chain_id :: string
  name :: string
  description :: string
  graph :: digraph
  entities_dict :: "(string \<times> Entity) list"

definition new_chain :: "string \<Rightarrow> string \<Rightarrow> string \<Rightarrow> HybridChain" where
  "new_chain cid nm descr =
     \<lparr>chain_id = cid, name = nm, description = descr, graph = empty_graph, entities_dict = []\<rparr>"

definition add_entity :: "HybridChain \<Rightarrow> Entity \<Rightarrow> HybridChain" where
  "add_entity c entity =
     c\<lparr>entities_dict := AList.update (entity_id entity) entity (entities_dict c),
       graph := add_node (graph c) (entity_id entity)
                  \<lparr>entity_type = Some (type_name entity), data = Some entity\<rparr>\<rparr>"

definition get_entity :: "HybridChain \<Rightarrow> string \<Rightarrow> Entity option" where
  "get_entity c eid = map_of (entities_dict c) eid"

definition add_relationship :: "HybridChain \<Rightarrow> Relationship \<Rightarrow> (py_error + unit) \<times> HybridChain" where
  "add_relationship c rel =
     (if source_id rel \<notin> set (map fst (entities_dict c))
      then (Inl (ValueError (''Source entity '' @ [CHR 0x27] @ source_id rel @ [CHR 0x27] @ '' not in chain'')), c)
      else if target_id rel \<notin> set (map fst (entities_dict c))
      then (Inl (ValueError (''Target entity '' @ [CHR 0x27] @ target_id rel @ [CHR 0x27] @ '' not in chain'')), c)
      else (Inr (),
            c\<lparr>graph := add_edge (graph c) (source_id rel) (target_id rel)
                 \<lparr>edge_type = Some (Relationship.edge_type rel),
                  resource_id = Some (Relationship.resource_id rel),
                  description = Some (Relationship.description rel)\<rparr>\<rparr>))"

text \<open>The properties \<^verbatim>\<open>entities\<close> (a copy of the dictionary) and \<^verbatim>\<open>relationships\<close>.\<close>

definition entities :: "HybridChain \<Rightarrow> (string \<times> Entity) list" where
  "entities c = entities_dict c"

record rel_dict =
  source :: node
  target :: node
  attrs :: edge_attr

definition relationships :: "HybridChain \<Rightarrow> rel_dict list" where
  "relationships c =
     map (\<lambda>((u, v), d). \<lparr>source = u, target = v, attrs = d\<rparr>) (edges_data (graph c))"

section \<open>Topological sorting (\<^verbatim>\<open>nx.topological_sort\<close>, \<^verbatim>\<open>nx.is_directed_acyclic_graph\<close>)\<close>

text \<open>
  \<^verbatim>\<open>chain.py\<close> calls \<^verbatim>\<open>nx.is_directed_acyclic_graph\<close> and \<^verbatim>\<open>nx.topological_sort\<close>. The
  library implements both with \<^verbatim>\<open>topological_generations\<close> (networkx 3.x), Kahn's
  algorithm by generations:
  \<^verbatim>\<open>
    indegree_map = {v: d for v, d in G.in_degree() if d > 0}
    zero_indegree = [v for v, d in G.in_degree() if d == 0]
    while zero_indegree:
        this_generation = zero_indegree
        zero_indegree = []
        for node in this_generation:
            if node not in G:
                raise RuntimeError("Graph changed during iteration")
            for child in G.neighbors(node):
                try:
                    indegree_map[child] -= 1
                except KeyError as err:
                    raise RuntimeError("Graph changed during iteration") from err
                if indegree_map[child] == 0:
                    zero_indegree.append(child)
                    del indegree_map[child]
        yield this_generation
    if indegree_map:
        raise nx.NetworkXUnfeasible("Graph contains a cycle ...")
  \<close>
  The dictionary \<^verbatim>\<open>indegree_map\<close> is an association list. The inner loop is
  \<open>relax_children\<close>, the loop over one generation \<open>process_generation\<close>, the
  \<^verbatim>\<open>while\<close> loop \<open>generations_loop\<close>, which returns the generations it would
  yield, or the exception that ends the iteration.
\<close>

type_synonym indegree_map = "(node \<times> int) list"

fun relax_children ::
  "node list \<Rightarrow> indegree_map \<times> node list \<Rightarrow> py_error + (indegree_map \<times> node list)" where
  "relax_children [] st = Inr st"
| "relax_children (child # cs) (im, zero_indegree) =
     (case map_of im child of
        None \<Rightarrow> Inl RuntimeError
      | Some d \<Rightarrow>
          (let im' = AList.update child (d - 1) im
           in if d - 1 = 0
              then relax_children cs (AList.delete child im', zero_indegree @ [child])
              else relax_children cs (im', zero_indegree)))"

fun process_generation ::
  "digraph \<Rightarrow> node list \<Rightarrow> indegree_map \<times> node list \<Rightarrow> py_error + (indegree_map \<times> node list)" where
  "process_generation G [] st = Inr st"
| "process_generation G (n # ns) st =
     (if \<not> has_node G n then Inl RuntimeError
      else case relax_children (successors G n) st of
             Inl e \<Rightarrow> Inl e
           | Inr st' \<Rightarrow> process_generation G ns st')"

lemma length_update_present: "map_of al k = Some d \<Longrightarrow> length (AList.update k v al) = length al"
  by (induction al) (auto split: if_splits)

lemma length_delete_update:
  "map_of al k = Some d \<Longrightarrow> Suc (length (AList.delete k (AList.update k v al))) \<le> length al"
proof (induction al)
  case Nil
  then show ?case by simp
next
  case (Cons p al)
  show ?case
  proof (cases "fst p = k")
    case True
    have "length (AList.delete k al) \<le> length al"
      by (simp add: AList.delete_eq)
    with True show ?thesis by (simp add: AList.delete_eq)
  next
    case False
    with Cons show ?thesis by (auto simp: AList.delete_eq)
  qed
qed

lemma relax_children_length:
  "relax_children cs (im, z) = Inr (im', z') \<Longrightarrow> length im' + length z' \<le> length im + length z"
proof (induction cs arbitrary: im z)
  case Nil
  then show ?case by simp
next
  case (Cons c cs)
  from Cons.prems obtain d where d: "map_of im c = Some d"
    by (auto split: option.splits)
  show ?case
  proof (cases "d - 1 = 0")
    case True
    with Cons.prems d
    have "relax_children cs (AList.delete c (AList.update c (d - 1) im), z @ [c]) = Inr (im', z')"
      by (simp add: Let_def)
    from Cons.IH [OF this] length_delete_update [OF d, of "d - 1"] show ?thesis by simp
  next
    case False
    with Cons.prems d
    have "relax_children cs (AList.update c (d - 1) im, z) = Inr (im', z')"
      by (simp add: Let_def)
    from Cons.IH [OF this] length_update_present [OF d, of "d - 1"] show ?thesis by simp
  qed
qed

lemma process_generation_length:
  "process_generation G ns (im, z) = Inr (im', z') \<Longrightarrow> length im' + length z' \<le> length im + length z"
proof (induction ns arbitrary: im z)
  case Nil
  then show ?case by simp
next
  case (Cons n ns)
  from Cons.prems obtain im1 z1 where
    1: "relax_children (successors G n) (im, z) = Inr (im1, z1)" and
    2: "process_generation G ns (im1, z1) = Inr (im', z')"
    by (auto split: if_splits sum.splits)
  from Cons.IH [OF 2] relax_children_length [OF 1] show ?case by simp
qed

function generations_loop :: "digraph \<Rightarrow> indegree_map \<Rightarrow> node list \<Rightarrow> py_error + node list list" where
  "generations_loop G im zero_indegree =
     (if zero_indegree = [] then (if im \<noteq> [] then Inl NetworkXUnfeasible else Inr [])
      else case process_generation G zero_indegree (im, []) of
             Inl e \<Rightarrow> Inl e
           | Inr (im', zero_indegree') \<Rightarrow>
               (case generations_loop G im' zero_indegree' of
                  Inl e \<Rightarrow> Inl e
                | Inr gens \<Rightarrow> Inr (zero_indegree # gens)))"
  by pat_completeness auto
termination
proof (relation "measure (\<lambda>(G, im, z). length im + (if z = [] then 0 else 1))")
  show "wf (measure (\<lambda>(G, im, z). length im + (if z = [] then 0 else 1)))"
    by simp
next
  fix G :: digraph and im :: indegree_map and zero_indegree :: "node list" and x2 im' z'
  assume "zero_indegree \<noteq> []"
    and "process_generation G zero_indegree (im, []) = Inr x2" and "(im', z') = x2"
  then have "length im' + length z' \<le> length im"
    using process_generation_length [of G zero_indegree im "[]" im' z'] by simp
  moreover have "(if z' = [] then 0 else 1) \<le> length z'"
    by (cases z') simp_all
  ultimately show "((G, im', z'), (G, im, zero_indegree))
      \<in> measure (\<lambda>(G, im, z). length im + (if z = [] then 0 else 1))"
    using \<open>zero_indegree \<noteq> []\<close> by simp
qed

declare generations_loop.simps [simp del]

definition topological_generations :: "digraph \<Rightarrow> py_error + node list list" where
  "topological_generations G =
     generations_loop G
       (map (\<lambda>v. (v, int (in_degree G v))) (filter (\<lambda>v. in_degree G v > 0) (node_ids G)))
       (filter (\<lambda>v. in_degree G v = 0) (node_ids G))"

text \<open>\<^verbatim>\<open>list(nx.topological_sort(G))\<close>: the generations one after the other.\<close>

definition topological_sort :: "digraph \<Rightarrow> py_error + node list" where
  "topological_sort G =
     (case topological_generations G of Inl e \<Rightarrow> Inl e | Inr gens \<Rightarrow> Inr (concat gens))"

text \<open>
  \<^verbatim>\<open>has_cycle\<close> consumes \<^verbatim>\<open>topological_sort(G)\<close> and catches \<^verbatim>\<open>NetworkXUnfeasible\<close> only;
  \<^verbatim>\<open>is_directed_acyclic_graph(G)\<close> is \<^verbatim>\<open>G.is_directed() and not has_cycle(G)\<close>.
\<close>

definition has_cycle :: "digraph \<Rightarrow> py_error + bool" where
  "has_cycle G =
     (case topological_sort G of
        Inl NetworkXUnfeasible \<Rightarrow> Inr True
      | Inl e \<Rightarrow> Inl e
      | Inr order \<Rightarrow> Inr False)"

definition is_directed_acyclic_graph :: "digraph \<Rightarrow> py_error + bool" where
  "is_directed_acyclic_graph G =
     (case has_cycle G of Inl e \<Rightarrow> Inl e | Inr b \<Rightarrow> Inr (\<not> b))"

section \<open>Descendants (\<^verbatim>\<open>nx.descendants\<close>)\<close>

text \<open>
  \<^verbatim>\<open>nx.descendants(G, source)\<close> is the set of the children of
  \<^verbatim>\<open>nx.bfs_edges(G, source)\<close>, which runs \<^verbatim>\<open>generic_bfs_edges\<close> (networkx 3.x) with
  \<^verbatim>\<open>G.neighbors\<close> and the depth limit \<^verbatim>\<open>len(G)\<close>:
  \<^verbatim>\<open>
    seen = {source}
    n = len(G)
    depth = 0
    next_parents_children = [(source, neighbors(source))]
    while next_parents_children and depth < depth_limit:
        this_parents_children = next_parents_children
        next_parents_children = []
        for parent, children in this_parents_children:
            for child in children:
                if child not in seen:
                    seen.add(child)
                    next_parents_children.append((child, neighbors(child)))
                    yield parent, child
            if len(seen) == n:
                return
        depth += 1
  \<close>
  The state is the triple of \<^verbatim>\<open>seen\<close> (a list without repetition for the set), the
  parents of the next level and the edges yielded so far. \<open>bfs_level\<close> also says
  whether the generator has returned; \<open>bfs_loop\<close> counts down \<^verbatim>\<open>depth_limit - depth\<close>.
\<close>

type_synonym bfs_state = "node list \<times> node list \<times> (node \<times> node) list"

fun bfs_children :: "node \<Rightarrow> node list \<Rightarrow> bfs_state \<Rightarrow> bfs_state" where
  "bfs_children parent [] st = st"
| "bfs_children parent (child # cs) (seen, next_parents, out) =
     (if child \<notin> set seen
      then bfs_children parent cs (seen @ [child], next_parents @ [child], out @ [(parent, child)])
      else bfs_children parent cs (seen, next_parents, out))"

fun bfs_level :: "digraph \<Rightarrow> nat \<Rightarrow> node list \<Rightarrow> bfs_state \<Rightarrow> bool \<times> bfs_state" where
  "bfs_level G n [] st = (False, st)"
| "bfs_level G n (parent # ps) st =
     (let st' = bfs_children parent (successors G parent) st
      in if length (fst st') = n then (True, st') else bfs_level G n ps st')"

fun bfs_loop :: "digraph \<Rightarrow> nat \<Rightarrow> nat \<Rightarrow> bfs_state \<Rightarrow> (node \<times> node) list" where
  "bfs_loop G n 0 (seen, next_parents, out) = out"
| "bfs_loop G n (Suc k) (seen, next_parents, out) =
     (if next_parents = [] then out
      else case bfs_level G n next_parents (seen, [], out) of
             (True, (seen', next_parents', out')) \<Rightarrow> out'
           | (False, st') \<Rightarrow> bfs_loop G n k st')"

text \<open>\<^verbatim>\<open>G.neighbors(source)\<close> raises \<^verbatim>\<open>NetworkXError\<close> for a source that is not a node.\<close>

definition bfs_edges :: "digraph \<Rightarrow> node \<Rightarrow> py_error + (node \<times> node) list" where
  "bfs_edges G src =
     (if \<not> has_node G src then Inl NetworkXError
      else Inr (bfs_loop G (length (nodes G)) (length (nodes G)) ([src], [src], [])))"

text \<open>The set comprehension of \<^verbatim>\<open>descendants\<close>: the children, each once.\<close>

definition descendants :: "digraph \<Rightarrow> node \<Rightarrow> py_error + node list" where
  "descendants G src =
     (case bfs_edges G src of Inl e \<Rightarrow> Inl e | Inr es \<Rightarrow> Inr (remdups (map snd es)))"

section \<open>Simple paths (\<^verbatim>\<open>nx.all_simple_paths\<close>)\<close>

text \<open>
  \<^verbatim>\<open>nx.all_simple_paths(G, source, target)\<close> (networkx 3.2 and later) yields the node
  lists of \<^verbatim>\<open>all_simple_edge_paths\<close>, a depth-first search that keeps the current path
  and a stack of edge iterators:
  \<^verbatim>\<open>
    if source not in G: raise nx.NodeNotFound(...)
    if target in G: targets = {target}
    else: targets = set(target)          # a string gives its characters
    cutoff = len(G) - 1
    if cutoff >= 0 and targets:
        current_path = {None: None}
        stack = [iter([(None, source)])]
        while stack:
            next_edge = next((e for e in stack[-1] if e[1] not in current_path), None)
            if next_edge is None:
                stack.pop(); current_path.popitem(); continue
            previous_node, next_node, *_ = next_edge
            if next_node in targets:
                yield (list(current_path.values()) + [next_edge])[2:]
            if len(current_path) - 1 < cutoff and (
                    targets - current_path.keys() - {next_node}):
                current_path[next_node] = next_edge
                stack.append(iter(G.edges(next_node)))
  \<close>
  The model is the same search with the stack of iterators as the recursion:
  \<open>path\<close> is the current path without the dummy entry, the last argument is what
  is left of the iterator on top of the stack, by the nodes the edges lead to. The
  extension of the path by a node is explored to its end before the rest of the
  iterator is read, as the loop does. The source with a target that is the source
  itself yields the path of that single node.
\<close>

function simple_paths_from ::
  "digraph \<Rightarrow> node list \<Rightarrow> int \<Rightarrow> node list \<Rightarrow> node list \<Rightarrow> node list list" where
  "simple_paths_from G targets cutoff path [] = []"
| "simple_paths_from G targets cutoff path (next_node # rest) =
     (if next_node \<in> set path then simple_paths_from G targets cutoff path rest
      else (if next_node \<in> set targets then [path @ [next_node]] else [])
           @ (if int (length path) < cutoff
                 \<and> (\<exists>t \<in> set targets. t \<notin> set path \<and> t \<noteq> next_node)
              then simple_paths_from G targets cutoff (path @ [next_node]) (successors G next_node)
              else [])
           @ simple_paths_from G targets cutoff path rest)"
  by pat_completeness auto
termination
  by (relation "measures [\<lambda>(G, targets, cutoff, path, rest). nat (cutoff - int (length path)),
                          \<lambda>(G, targets, cutoff, path, rest). length rest]") auto

declare simple_paths_from.simps [simp del]

definition all_simple_paths :: "digraph \<Rightarrow> node \<Rightarrow> node \<Rightarrow> py_error + node list list" where
  "all_simple_paths G src tgt =
     (if \<not> has_node G src then Inl NodeNotFound
      else let targets = (if has_node G tgt then [tgt] else remdups (map (\<lambda>ch. [ch]) tgt));
               cutoff = int (length (nodes G)) - 1
           in if cutoff \<ge> 0 \<and> targets \<noteq> []
              then Inr (simple_paths_from G targets cutoff [] [src])
              else Inr [])"

section \<open>Ordering queries of the chain (threadmap/chain.py)\<close>

definition cycle_error :: py_error where
  "cycle_error = ValueError ''Chain contains cycles - not a valid DAG''"

definition is_valid_dag :: "HybridChain \<Rightarrow> py_error + bool" where
  "is_valid_dag c = is_directed_acyclic_graph (graph c)"

definition get_chain :: "HybridChain \<Rightarrow> py_error + node list" where
  "get_chain c =
     (case is_directed_acyclic_graph (graph c) of
        Inl e \<Rightarrow> Inl e
      | Inr False \<Rightarrow> Inl cycle_error
      | Inr True \<Rightarrow> topological_sort (graph c))"

text \<open>
  The local function \<^verbatim>\<open>_weight(u, v)\<close> of \<^verbatim>\<open>get_critical_path\<close>: the negated duration of
  the node the edge enters, when it is an Action with a duration that is neither
  \<^verbatim>\<open>None\<close> nor zero.
\<close>

definition weight :: "HybridChain \<Rightarrow> node \<Rightarrow> node \<Rightarrow> pyfloat" where
  "weight c u v =
     (case get_entity c v of
        Some (EAction a) \<Rightarrow>
          (case duration_hours a of
             Some d \<Rightarrow> if d \<noteq> 0 then - d else 0
           | None \<Rightarrow> 0)
      | _ \<Rightarrow> 0)"

text \<open>
  \<^verbatim>\<open>G.copy()\<close> adds the nodes in order and then the edges in the order of
  \<^verbatim>\<open>G.edges(data=True)\<close>.
\<close>

definition copy :: "digraph \<Rightarrow> digraph" where
  "copy G = \<lparr>nodes = nodes G, edges = edges_data G\<rparr>"

definition source_nodes :: "digraph \<Rightarrow> node list" where
  "source_nodes G = filter (\<lambda>n. in_degree G n = 0) (node_ids G)"

definition sink_nodes :: "digraph \<Rightarrow> node list" where
  "sink_nodes G = filter (\<lambda>n. out_degree G n = 0) (node_ids G)"

text \<open>
  The graph handed to the shortest-path search: the copy with the two virtual nodes,
  an edge from \<^verbatim>\<open>__src__\<close> to every source and from every sink to \<^verbatim>\<open>__sink__\<close>.
\<close>

definition virtual_graph :: "digraph \<Rightarrow> digraph" where
  "virtual_graph G =
     (let g = copy G;
          g = add_node g ''__src__'' no_node_attr;
          g = add_node g ''__sink__'' no_node_attr;
          g = fold (\<lambda>s g. add_edge g ''__src__'' s no_edge_attr) (source_nodes G) g;
          g = fold (\<lambda>s g. add_edge g s ''__sink__'' no_edge_attr) (sink_nodes G) g
      in g)"

text \<open>
  \<^verbatim>\<open>nx.bellman_ford_path(g, source, target, weight)\<close> is a function of the library that
  is not part of the repository. \<open>get_critical_path\<close> takes it as its first
  argument: any function from the graph, the two end nodes and the weight function to
  a path or an exception.
\<close>

type_synonym bellman_ford_path =
  "digraph \<Rightarrow> node \<Rightarrow> node \<Rightarrow> (node \<Rightarrow> node \<Rightarrow> pyfloat) \<Rightarrow> py_error + node list"

definition get_critical_path :: "bellman_ford_path \<Rightarrow> HybridChain \<Rightarrow> py_error + node list" where
  "get_critical_path bf c =
     (case is_directed_acyclic_graph (graph c) of
        Inl e \<Rightarrow> Inl e
      | Inr False \<Rightarrow> Inl cycle_error
      | Inr True \<Rightarrow>
          if length (nodes (graph c)) = 0 then Inr []
          else if source_nodes (graph c) = [] \<or> sink_nodes (graph c) = []
          then topological_sort (graph c)
          else (case bf (virtual_graph (graph c)) ''__src__'' ''__sink__'' (weight c) of
                  Inr path \<Rightarrow> Inr (filter (\<lambda>n. n \<notin> {''__src__'', ''__sink__''}) path)
                | Inl NetworkXNoPath \<Rightarrow> Inr []
                | Inl e \<Rightarrow> Inl e))"

text \<open>\<^verbatim>\<open>intervention_score\<close>: the number of descendants of a node of the chain.\<close>

definition intervention_score :: "HybridChain \<Rightarrow> node \<Rightarrow> py_error + int" where
  "intervention_score c node_id =
     (if \<not> has_node (graph c) node_id
      then Inl (ValueError (''Node '' @ [CHR 0x27] @ node_id @ [CHR 0x27] @ '' not in chain''))
      else case descendants (graph c) node_id of
             Inl e \<Rightarrow> Inl e
           | Inr ds \<Rightarrow> Inr (int (length ds)))"

section \<open>Narrative threads (threadmap/analysis.py)\<close>

text \<open>
  \<^verbatim>\<open>get_entities_by_type\<close> filters the values of \<^verbatim>\<open>_entities\<close> with \<^verbatim>\<open>isinstance\<close>. None
  of the seven classes derives from another, so the class is given by its name.
\<close>

definition get_entities_by_type :: "HybridChain \<Rightarrow> string \<Rightarrow> Entity list" where
  "get_entities_by_type c tname = filter (\<lambda>e. type_name e = tname) (map snd (entities_dict c))"

text \<open>The two inner loops of \<^verbatim>\<open>narrative_threads\<close>, for one source and over the sources.\<close>

fun threads_of_source ::
  "digraph \<Rightarrow> node list \<Rightarrow> node \<Rightarrow> node list \<Rightarrow> node list list \<Rightarrow> py_error + node list list" where
  "threads_of_source G narrative_ids src [] threads = Inr threads"
| "threads_of_source G narrative_ids src (sink # sinks) threads =
     (case all_simple_paths G src sink of
        Inl e \<Rightarrow> Inl e
      | Inr paths \<Rightarrow>
          threads_of_source G narrative_ids src sinks
            (threads @ filter (\<lambda>path. \<exists>n \<in> set path. n \<in> set narrative_ids) paths))"

fun threads_of_sources ::
  "digraph \<Rightarrow> node list \<Rightarrow> node list \<Rightarrow> node list \<Rightarrow> node list list \<Rightarrow> py_error + node list list" where
  "threads_of_sources G narrative_ids [] sinks threads = Inr threads"
| "threads_of_sources G narrative_ids (src # sources) sinks threads =
     (case threads_of_source G narrative_ids src sinks threads of
        Inl e \<Rightarrow> Inl e
      | Inr threads' \<Rightarrow> threads_of_sources G narrative_ids sources sinks threads')"

definition narrative_threads :: "HybridChain \<Rightarrow> py_error + node list list" where
  "narrative_threads c =
     (let narrative_ids = remdups (map entity_id (get_entities_by_type c ''Narrative''))
      in if narrative_ids = [] then Inr []
         else threads_of_sources (graph c) narrative_ids
                (source_nodes (graph c)) (sink_nodes (graph c)) [])"

section \<open>Well-formed chains\<close>

text \<open>
  The chains the interface can build: node ids and edge keys are dictionary keys, so
  they are distinct; \<^verbatim>\<open>add_relationship\<close> only links entities that are present; the
  graph's nodes are the keys of \<^verbatim>\<open>_entities\<close>, in the same order, and every entity is
  stored under its own id. The constructor establishes this and both insertion
  methods preserve it (lemmas \<open>wf_chain_new\<close>, \<open>wf_chain_add_entity\<close>,
  \<open>wf_chain_add_relationship\<close>).
\<close>


definition wf_graph :: "digraph \<Rightarrow> bool" where
  "wf_graph G \<longleftrightarrow>
     distinct (node_ids G) \<and> distinct (edge_keys G) \<and>
     (\<forall>e \<in> set (edge_keys G). fst e \<in> set (node_ids G) \<and> snd e \<in> set (node_ids G))"

definition wf_chain :: "HybridChain \<Rightarrow> bool" where
  "wf_chain c \<longleftrightarrow>
     wf_graph (graph c) \<and> map fst (entities_dict c) = node_ids (graph c) \<and>
     (\<forall>p \<in> set (entities_dict c). entity_id (snd p) = fst p)"

text \<open>What \<^verbatim>\<open>add_relationship\<close> checks: an endpoint id that is not a key of \<^verbatim>\<open>_entities\<close>.\<close>

definition endpoint_missing :: "HybridChain \<Rightarrow> Relationship \<Rightarrow> bool" where
  "endpoint_missing c r \<longleftrightarrow>
     source_id r \<notin> set (map fst (entities c)) \<or> target_id r \<notin> set (map fst (entities c))"

text \<open>
  The edge relation and the node set of a graph, and the position of an element in a
  list (Python's \<^verbatim>\<open>xs.index(x)\<close> for an element that occurs).
\<close>

definition edge_set :: "digraph \<Rightarrow> (node \<times> node) set" where
  "edge_set G = set (edge_keys G)"

definition node_set :: "digraph \<Rightarrow> node set" where
  "node_set G = set (node_ids G)"

definition list_index :: "'a \<Rightarrow> 'a list \<Rightarrow> nat" where
  "list_index x xs = length (takeWhile (\<lambda>y. y \<noteq> x) xs)"

text \<open>
  A topological order of a graph: every node exactly once, and every edge goes from
  an earlier to a later position.
\<close>

definition topo_ok :: "digraph \<Rightarrow> node list \<Rightarrow> bool" where
  "topo_ok G xs \<longleftrightarrow>
     distinct xs \<and> set xs = node_set G \<and>
     (\<forall>e \<in> edge_set G. list_index (fst e) xs < list_index (snd e) xs)"

text \<open>The relationship graph of a chain: the pairs (source, target) of its relationships.\<close>

definition rel_edges :: "HybridChain \<Rightarrow> (node \<times> node) set" where
  "rel_edges c = set (map (\<lambda>r. (source r, target r)) (relationships c))"

text \<open>
  The descendant set of a node in an edge relation: the nodes other than the node
  itself that a directed path of at least one edge reaches from it.
\<close>

definition descendant_set :: "(node \<times> node) set \<Rightarrow> node \<Rightarrow> node set" where
  "descendant_set E n = {v. v \<noteq> n \<and> (n, v) \<in> E\<^sup>+}"

text \<open>
  A narrative thread of a chain: a simple directed path (at least one node, no node
  twice, consecutive nodes joined by a relationship) from an entity without incoming
  relationships to an entity without outgoing ones, with a Narrative entity on it.
\<close>

definition is_narrative :: "HybridChain \<Rightarrow> node \<Rightarrow> bool" where
  "is_narrative c n \<longleftrightarrow> (case get_entity c n of Some (ENarrative e) \<Rightarrow> True | _ \<Rightarrow> False)"

definition simple_path :: "(node \<times> node) set \<Rightarrow> node list \<Rightarrow> bool" where
  "simple_path E p \<longleftrightarrow> p \<noteq> [] \<and> distinct p \<and> successively (\<lambda>u v. (u, v) \<in> E) p"

definition narrative_thread :: "HybridChain \<Rightarrow> node list \<Rightarrow> bool" where
  "narrative_thread c p \<longleftrightarrow>
     simple_path (rel_edges c) p \<and>
     hd p \<in> set (map fst (entities c)) \<and> (\<forall>u. (u, hd p) \<notin> rel_edges c) \<and>
     last p \<in> set (map fst (entities c)) \<and> (\<forall>v. (last p, v) \<notin> rel_edges c) \<and>
     (\<exists>n \<in> set p. is_narrative c n)"

section \<open>The invariant of the topological sort\<close>

text \<open>
  \<open>T\<close> lists the nodes that have reached in-degree zero so far (the generations
  yielded, the current one and the next one), \<open>P\<close> is the set of edges the inner
  loop has gone through. A node outside \<open>T\<close> is a key of \<^verbatim>\<open>indegree_map\<close>, with the
  number of its incoming edges not yet gone through, which is positive; every edge
  into a node of \<open>T\<close> starts at an earlier node of \<open>T\<close>.
\<close>

definition unprocessed :: "digraph \<Rightarrow> (node \<times> node) set \<Rightarrow> node \<Rightarrow> node set" where
  "unprocessed G P v = {u. (u, v) \<in> edge_set G \<and> (u, v) \<notin> P}"

definition kahn_inv :: "digraph \<Rightarrow> node list \<Rightarrow> (node \<times> node) set \<Rightarrow> indegree_map \<Rightarrow> bool" where
  "kahn_inv G T P im \<longleftrightarrow>
     distinct T \<and> set T \<subseteq> node_set G \<and> P \<subseteq> edge_set G \<and> fst ` P \<subseteq> set T \<and>
     distinct (map fst im) \<and>
     (\<forall>v. v \<in> set T \<longrightarrow> unprocessed G P v = {} \<and> map_of im v = None) \<and>
     (\<forall>v. v \<in> node_set G \<and> v \<notin> set T \<longrightarrow>
          map_of im v = Some (int (card (unprocessed G P v))) \<and> unprocessed G P v \<noteq> {}) \<and>
     (\<forall>v. v \<notin> node_set G \<longrightarrow> map_of im v = None) \<and>
     (\<forall>u v. (u, v) \<in> edge_set G \<and> v \<in> set T \<longrightarrow> u \<in> set T \<and> list_index u T < list_index v T)"

section \<open>The invariant of the breadth-first search\<close>

text \<open>
  \<^verbatim>\<open>seen\<close> holds the source and the children yielded so far, all reachable from the
  source; \<open>closed_under G S seen\<close> says that the successors of the nodes of \<open>S\<close>,
  those whose children the search has gone through, are all seen.
\<close>

definition bfs_inv :: "digraph \<Rightarrow> node \<Rightarrow> node list \<Rightarrow> (node \<times> node) list \<Rightarrow> bool" where
  "bfs_inv G s seen out \<longleftrightarrow>
     s \<in> set seen \<and> distinct seen \<and> set seen \<subseteq> node_set G \<and>
     set seen \<subseteq> {v. (s, v) \<in> (edge_set G)\<^sup>*} \<and>
     set seen = insert s (snd ` set out) \<and> s \<notin> snd ` set out"

definition closed_under :: "digraph \<Rightarrow> node set \<Rightarrow> node list \<Rightarrow> bool" where
  "closed_under G S seen \<longleftrightarrow> (\<forall>u \<in> S. \<forall>v. (u, v) \<in> edge_set G \<longrightarrow> v \<in> set seen)"

section \<open>The paths a search state stands for\<close>

text \<open>
  The simple paths to the target \<open>t\<close> that extend the current path \<open>path\<close> by a
  non-empty list whose first node is one of the pending nodes.
\<close>

definition ext_paths :: "(node \<times> node) set \<Rightarrow> node list \<Rightarrow> node list \<Rightarrow> node \<Rightarrow> node list set" where
  "ext_paths E path pend t =
     {path @ q | q. q \<noteq> [] \<and> hd q \<in> set pend \<and> distinct (path @ q) \<and>
                   successively (\<lambda>u v. (u, v) \<in> E) q \<and> last q = t}"

section \<open>Example chains\<close>

text \<open>Small concrete entities and chains, built through the insertion methods.\<close>

definition actor_a :: Entity where
  "actor_a = EActor \<lparr>Actor.id' = ''a'', name = ''A'', actor_type = STATE, capabilities = [],
                      known_aliases = [], attribution_confidence = 1/2\<rparr>"

definition actor_b :: Entity where
  "actor_b = EActor \<lparr>Actor.id' = ''b'', name = ''B'', actor_type = PROXY, capabilities = [],
                      known_aliases = [], attribution_confidence = 1/2\<rparr>"

definition target_a :: Entity where
  "target_a = ETarget \<lparr>Target.id' = ''a'', name = ''T'', target_type = ''organization'',
                        description = [], vulnerabilities = []\<rparr>"

text \<open>\<^verbatim>\<open>Relationship(source_id=u, target_id=v)\<close> with the defaults of the class.\<close>

definition rel :: "string \<Rightarrow> string \<Rightarrow> Relationship" where
  "rel u v = \<lparr>source_id = u, target_id = v, edge_type = DEPENDENCY, resource_id = None,
              description = []\<rparr>"

text \<open>Two actors \<open>a\<close> and \<open>b\<close> without a relationship, and with \<open>a \<rightarrow> b\<close>.\<close>

definition chain_two :: HybridChain where
  "chain_two = add_entity (add_entity (new_chain ''x'' ''X'' []) actor_a) actor_b"

definition chain_ab :: HybridChain where
  "chain_ab = snd (add_relationship chain_two (rel ''a'' ''b''))"

text \<open>The cycle \<open>a \<rightarrow> b \<rightarrow> a\<close>.\<close>

definition chain_cycle :: HybridChain where
  "chain_cycle = snd (add_relationship chain_ab (rel ''b'' ''a''))"

text \<open>A chain whose only entity has the id that \<^verbatim>\<open>get_critical_path\<close> gives its virtual sink.\<close>

definition actor_sink :: Entity where
  "actor_sink = EActor \<lparr>Actor.id' = ''__sink__'', name = ''S'', actor_type = STATE,
                         capabilities = [], known_aliases = [], attribution_confidence = 1/2\<rparr>"

definition chain_sentinel :: HybridChain where
  "chain_sentinel = add_entity (new_chain ''y'' ''Y'' []) actor_sink"

text \<open>A Narrative \<open>n\<close>, and the chain of the actor \<open>a\<close> with the relationship \<open>a \<rightarrow> n\<close>.\<close>

definition narrative_n :: Entity where
  "narrative_n = ENarrative \<lparr>Narrative.id' = ''n'', name = ''N'', narrative_type = LEAK,
      description = [], target_audience = None, sct_codes = [], platforms = []\<rparr>"

definition chain_an :: HybridChain where
  "chain_an = snd (add_relationship
                (add_entity (add_entity (new_chain ''w'' ''W'' []) actor_a) narrative_n)
                (rel ''a'' ''n''))"

text \<open>The chain whose only entity is the Narrative \<open>n\<close>.\<close>

definition chain_n :: HybridChain where
  "chain_n = add_entity (new_chain ''v'' ''V'' []) narrative_n"

section \<open>Basic facts about the graph store\<close>

lemma map_fst_update:
  "map fst (AList.update k v al) = (if k \<in> set (map fst al) then map fst al else map fst al @ [k])"
  by (induction al) auto

lemma node_ids_add_node:
  "node_ids (add_node G n a) = (if n \<in> set (node_ids G) then node_ids G else node_ids G @ [n])"
  by (auto simp: add_node_def node_ids_def map_fst_update map_of_eq_None_iff split: option.splits
      dest: weak_map_of_SomeI) 

lemma edges_add_node [simp]: "edges (add_node G n a) = edges G"
  by (simp add: add_node_def split: option.splits)

lemma edge_keys_add_node [simp]: "edge_keys (add_node G n a) = edge_keys G"
  by (simp add: edge_keys_def)

lemma node_ids_add_edge:
  "u \<in> set (node_ids G) \<Longrightarrow> v \<in> set (node_ids G) \<Longrightarrow> node_ids (add_edge G u v a) = node_ids G"
  by (simp add: add_edge_def has_node_def node_ids_def Let_def)

lemma edge_keys_add_edge:
  "edge_keys (add_edge G u v a) =
     (if (u, v) \<in> set (edge_keys G) then edge_keys G else edge_keys G @ [(u, v)])"
  by (simp add: add_edge_def edge_keys_def Let_def map_fst_update)

lemma wf_graph_add_node: "wf_graph G \<Longrightarrow> wf_graph (add_node G n a)"
  by (auto simp: wf_graph_def node_ids_add_node)

lemma wf_graph_add_edge:
  "wf_graph G \<Longrightarrow> u \<in> set (node_ids G) \<Longrightarrow> v \<in> set (node_ids G) \<Longrightarrow> wf_graph (add_edge G u v a)"
  by (auto simp: wf_graph_def node_ids_add_edge edge_keys_add_edge)

lemma wf_chain_new: "wf_chain (new_chain i n d)"
  by (simp add: wf_chain_def wf_graph_def new_chain_def empty_graph_def node_ids_def edge_keys_def)

lemma set_update_subset: "p \<in> set (AList.update k v al) \<Longrightarrow> p = (k, v) \<or> p \<in> set al"
  by (induction al) (auto split: if_splits)

lemma wf_chain_add_entity: "wf_chain c \<Longrightarrow> wf_chain (add_entity c e)"
  unfolding wf_chain_def add_entity_def
  by (auto simp: wf_graph_add_node map_fst_update node_ids_add_node dest!: set_update_subset)

lemma wf_chain_add_relationship: "wf_chain c \<Longrightarrow> wf_chain (snd (add_relationship c r))"
  unfolding wf_chain_def add_relationship_def
  by (auto simp: wf_graph_add_edge node_ids_add_edge)

lemma map_of_update_other: "k' \<noteq> k \<Longrightarrow> map_of (AList.update k v al) k' = map_of al k'"
  by (simp add: update_conv')

lemma update_edge_attr_full [simp]:
  "update_edge_attr old \<lparr>edge_type = Some t, resource_id = Some r, description = Some d\<rparr>
     = \<lparr>edge_type = Some t, resource_id = Some r, description = Some d\<rparr>"
  by (simp add: update_edge_attr_def)

lemma map_of_edges_add_edge:
  "map_of (edges (add_edge G u v a)) =
     (map_of (edges G))((u, v) \<mapsto>
        update_edge_attr (case map_of (edges G) (u, v) of None \<Rightarrow> no_edge_attr | Some d \<Rightarrow> d) a)"
  by (simp add: add_edge_def Let_def update_conv')

lemma edges_data_add_node:
  "n \<in> set (node_ids G) \<Longrightarrow> edges_data (add_node G n a) = edges_data G"
  by (simp add: edges_data_def node_ids_add_node)

lemma entities_chain_two: "entities_dict chain_two = [(''a'', actor_a), (''b'', actor_b)]"
  by (simp add: chain_two_def add_entity_def new_chain_def actor_a_def actor_b_def)

lemma wf_chain_ab: "wf_chain chain_ab"
  unfolding chain_ab_def chain_two_def by (intro wf_chain_add_relationship wf_chain_add_entity wf_chain_new)

section \<open>Correctness of the topological sort\<close>

lemma list_index_append_in: "x \<in> set xs \<Longrightarrow> list_index x (xs @ ys) = list_index x xs"
  by (simp add: list_index_def takeWhile_append1)

lemma list_index_append_notin: "x \<notin> set xs \<Longrightarrow> list_index x (xs @ ys) = length xs + list_index x ys"
  unfolding list_index_def by (induction xs) auto

lemma list_index_less: "x \<in> set xs \<Longrightarrow> list_index x xs < length xs"
  unfolding list_index_def by (induction xs) auto

lemma list_index_nth: "x \<in> set xs \<Longrightarrow> xs ! list_index x xs = x"
  unfolding list_index_def by (induction xs) auto

lemma finite_unprocessed: "finite (unprocessed G P v)"
proof -
  have "unprocessed G P v \<subseteq> fst ` edge_set G"
    by (auto simp: unprocessed_def image_iff) (metis fst_conv)
  then show ?thesis by (rule finite_subset) (simp add: edge_set_def)
qed

lemma unprocessed_insert_same:
  "unprocessed G (insert (n, c) P) c = unprocessed G P c - {n}"
  by (auto simp: unprocessed_def)

lemma unprocessed_insert_other:
  "v \<noteq> c \<Longrightarrow> unprocessed G (insert (n, c) P) v = unprocessed G P v"
  by (auto simp: unprocessed_def)

lemma predecessors_set: "set (predecessors G v) = {u. (u, v) \<in> edge_set G}"
  by (auto simp: predecessors_def edge_set_def image_iff) 

lemma successors_set: "set (successors G n) = {v. (n, v) \<in> edge_set G}"
  by (auto simp: successors_def edge_set_def image_iff)

lemma distinct_predecessors: "distinct (edge_keys G) \<Longrightarrow> distinct (predecessors G v)"
  unfolding predecessors_def
  by (rule distinct_map [THEN iffD2]) (auto simp: inj_on_def prod_eq_iff)

lemma distinct_successors: "distinct (edge_keys G) \<Longrightarrow> distinct (successors G v)"
  unfolding successors_def
  by (rule distinct_map [THEN iffD2]) (auto simp: inj_on_def prod_eq_iff)

lemma in_degree_card:
  "distinct (edge_keys G) \<Longrightarrow> in_degree G v = card {u. (u, v) \<in> edge_set G}"
  unfolding in_degree_def
  by (metis distinct_card distinct_predecessors predecessors_set)

lemma map_of_delete_update:
  "map_of (AList.delete c (AList.update c d im)) = (map_of im)(c := None)"
  by (simp add: delete_conv' update_conv')

lemma distinct_delete_update:
  "distinct (map fst im) \<Longrightarrow> distinct (map fst (AList.delete c (AList.update c d im)))"
  by (simp add: distinct_delete distinct_update)

lemma kahn_step:
  assumes wf: "wf_graph G" and inv: "kahn_inv G T P im"
    and nT: "n \<in> set T" and edge: "(n, c) \<in> edge_set G" and new: "(n, c) \<notin> P"
  shows "\<exists>d. map_of im c = Some d \<and>
     (d - 1 = 0 \<longrightarrow> kahn_inv G (T @ [c]) (insert (n, c) P) (AList.delete c (AList.update c (d - 1) im))) \<and>
     (d - 1 \<noteq> 0 \<longrightarrow> kahn_inv G T (insert (n, c) P) (AList.update c (d - 1) im))"
proof -
  let ?R = "unprocessed G P c"
  let ?P' = "insert (n, c) P"
  from inv have dT: "distinct T" and TV: "set T \<subseteq> node_set G" and PE: "P \<subseteq> edge_set G"
    and PT: "fst ` P \<subseteq> set T" and dim: "distinct (map fst im)"
    and inT: "\<And>v. v \<in> set T \<Longrightarrow> unprocessed G P v = {} \<and> map_of im v = None"
    and outT: "\<And>v. v \<in> node_set G \<Longrightarrow> v \<notin> set T \<Longrightarrow>
          map_of im v = Some (int (card (unprocessed G P v))) \<and> unprocessed G P v \<noteq> {}"
    and outV: "\<And>v. v \<notin> node_set G \<Longrightarrow> map_of im v = None"
    and ord: "\<And>u v. (u, v) \<in> edge_set G \<Longrightarrow> v \<in> set T \<Longrightarrow> u \<in> set T \<and> list_index u T < list_index v T"
    unfolding kahn_inv_def by blast+
  have nR: "n \<in> ?R" using edge new by (simp add: unprocessed_def)
  have cV: "c \<in> node_set G"
    using wf edge by (auto simp: wf_graph_def edge_set_def node_set_def)
  have cT: "c \<notin> set T" using inT [of c] nR by auto
  have mc: "map_of im c = Some (int (card ?R))" using outT [OF cV cT] by simp
  have card_pos: "card ?R > 0" using nR finite_unprocessed [of G P c] by (auto simp: card_gt_0_iff)
  have R': "unprocessed G ?P' c = ?R - {n}" by (rule unprocessed_insert_same)
  have card': "card (unprocessed G ?P' c) = card ?R - 1"
    using nR finite_unprocessed [of G P c] by (simp add: R')
  have int_card': "int (card (unprocessed G ?P' c)) = int (card ?R) - 1"
    using card' card_pos by simp
  have P'E: "?P' \<subseteq> edge_set G" using PE edge by simp
  have P'T: "fst ` ?P' \<subseteq> set T" using PT nT by simp
  have zero_case: "kahn_inv G (T @ [c]) ?P' (AList.delete c (AList.update c (int (card ?R) - 1) im))"
    if z: "int (card ?R) - 1 = 0"
  proof -
    let ?im' = "AList.delete c (AList.update c (int (card ?R) - 1) im)"
    have mim: "map_of ?im' = (map_of im)(c := None)" by (rule map_of_delete_update)
    have empty': "unprocessed G ?P' c = {}"
      using z int_card' finite_unprocessed [of G ?P' c] by simp
    have 1: "distinct (T @ [c])" using dT cT by simp
    have 2: "set (T @ [c]) \<subseteq> node_set G" using TV cV by simp
    have 4: "fst ` ?P' \<subseteq> set (T @ [c])" using P'T by auto
    have 5: "distinct (map fst ?im')" using dim by (rule distinct_delete_update)
    have 6: "\<forall>v. v \<in> set (T @ [c]) \<longrightarrow> unprocessed G ?P' v = {} \<and> map_of ?im' v = None"
    proof (intro allI impI)
      fix v assume v: "v \<in> set (T @ [c])"
      show "unprocessed G ?P' v = {} \<and> map_of ?im' v = None"
      proof (cases "v = c")
        case True
        then show ?thesis using empty' by (simp add: mim)
      next
        case False
        with v have "v \<in> set T" by simp
        with inT [of v] False show ?thesis by (simp add: mim unprocessed_insert_other)
      qed
    qed
    have 7: "\<forall>v. v \<in> node_set G \<and> v \<notin> set (T @ [c]) \<longrightarrow>
          map_of ?im' v = Some (int (card (unprocessed G ?P' v))) \<and> unprocessed G ?P' v \<noteq> {}"
    proof (intro allI impI)
      fix v assume v: "v \<in> node_set G \<and> v \<notin> set (T @ [c])"
      then have "v \<noteq> c" "v \<notin> set T" "v \<in> node_set G" by auto
      with outT [of v] show "map_of ?im' v = Some (int (card (unprocessed G ?P' v))) \<and> unprocessed G ?P' v \<noteq> {}"
        by (simp add: mim unprocessed_insert_other)
    qed
    have 8: "\<forall>v. v \<notin> node_set G \<longrightarrow> map_of ?im' v = None"
      using outV by (simp add: mim)
    have 9: "\<forall>u v. (u, v) \<in> edge_set G \<and> v \<in> set (T @ [c]) \<longrightarrow>
        u \<in> set (T @ [c]) \<and> list_index u (T @ [c]) < list_index v (T @ [c])"
    proof (intro allI impI)
      fix u v assume uv: "(u, v) \<in> edge_set G \<and> v \<in> set (T @ [c])"
      show "u \<in> set (T @ [c]) \<and> list_index u (T @ [c]) < list_index v (T @ [c])"
      proof (cases "v \<in> set T")
        case True
        with uv ord [of u v] show ?thesis by (simp add: list_index_append_in)
      next
        case False
        with uv have vc: "v = c" by simp
        have "(u, c) \<in> ?P'"
          using empty' uv vc by (auto simp: unprocessed_def)
        then have uT: "u \<in> set T" using P'T by force
        have "list_index c (T @ [c]) = length T"
          using cT by (simp add: list_index_append_notin) (simp add: list_index_def)
        with uT vc show ?thesis
          by (simp add: list_index_append_in list_index_less)
      qed
    qed
    from 1 2 P'E 4 5 6 7 8 9 show ?thesis unfolding kahn_inv_def by blast
  qed
  have pos_case: "kahn_inv G T ?P' (AList.update c (int (card ?R) - 1) im)"
    if nz: "int (card ?R) - 1 \<noteq> 0"
  proof -
    let ?im' = "AList.update c (int (card ?R) - 1) im"
    have mim: "map_of ?im' = (map_of im)(c \<mapsto> int (card ?R) - 1)" by (rule update_conv')
    have nonempty': "unprocessed G ?P' c \<noteq> {}"
      using nz int_card' by auto
    have 5: "distinct (map fst ?im')" using dim by (simp add: distinct_update)
    have 6: "\<forall>v. v \<in> set T \<longrightarrow> unprocessed G ?P' v = {} \<and> map_of ?im' v = None"
    proof (intro allI impI)
      fix v assume v: "v \<in> set T"
      then have "v \<noteq> c" using cT by auto
      with inT [OF v] show "unprocessed G ?P' v = {} \<and> map_of ?im' v = None"
        by (simp add: mim unprocessed_insert_other)
    qed
    have 7: "\<forall>v. v \<in> node_set G \<and> v \<notin> set T \<longrightarrow>
          map_of ?im' v = Some (int (card (unprocessed G ?P' v))) \<and> unprocessed G ?P' v \<noteq> {}"
    proof (intro allI impI)
      fix v assume v: "v \<in> node_set G \<and> v \<notin> set T"
      show "map_of ?im' v = Some (int (card (unprocessed G ?P' v))) \<and> unprocessed G ?P' v \<noteq> {}"
      proof (cases "v = c")
        case True
        then show ?thesis using nonempty' int_card' by (simp add: mim)
      next
        case False
        with v outT [of v] show ?thesis by (simp add: mim unprocessed_insert_other)
      qed
    qed
    have 8: "\<forall>v. v \<notin> node_set G \<longrightarrow> map_of ?im' v = None"
      using outV cV by (auto simp: mim)
    have 9: "\<forall>u v. (u, v) \<in> edge_set G \<and> v \<in> set T \<longrightarrow> u \<in> set T \<and> list_index u T < list_index v T"
      using ord by blast
    from dT TV P'E P'T 5 6 7 8 9 show ?thesis unfolding kahn_inv_def by blast
  qed
  from mc zero_case pos_case show ?thesis by blast
qed

lemma relax_children_inv:
  assumes wf: "wf_graph G"
  shows "kahn_inv G (A @ z) P im \<Longrightarrow> n \<in> set A \<Longrightarrow> distinct cs \<Longrightarrow>
         \<forall>c \<in> set cs. (n, c) \<in> edge_set G \<and> (n, c) \<notin> P \<Longrightarrow>
         \<exists>im' z'. relax_children cs (im, z) = Inr (im', z') \<and>
                  kahn_inv G (A @ z') (P \<union> {n} \<times> set cs) im'"
proof (induction cs arbitrary: im z P)
  case Nil
  then show ?case by simp
next
  case (Cons c cs)
  have nT: "n \<in> set (A @ z)" using Cons.prems(2) by simp
  have edge: "(n, c) \<in> edge_set G" and new: "(n, c) \<notin> P" using Cons.prems(4) by auto
  from kahn_step [OF wf Cons.prems(1) nT edge new] obtain d where
    d: "map_of im c = Some d" and
    zero: "d - 1 = 0 \<Longrightarrow> kahn_inv G ((A @ z) @ [c]) (insert (n, c) P) (AList.delete c (AList.update c (d - 1) im))" and
    pos: "d - 1 \<noteq> 0 \<Longrightarrow> kahn_inv G (A @ z) (insert (n, c) P) (AList.update c (d - 1) im)"
    by blast
  have dcs: "distinct cs" and cnot: "c \<notin> set cs" using Cons.prems(3) by auto
  have rest: "\<forall>c' \<in> set cs. (n, c') \<in> edge_set G \<and> (n, c') \<notin> insert (n, c) P"
    using Cons.prems(4) cnot by auto
  have Peq: "insert (n, c) P \<union> {n} \<times> set cs = P \<union> {n} \<times> set (c # cs)" by auto
  show ?case
  proof (cases "d - 1 = 0")
    case True
    from zero [OF True] have inv': "kahn_inv G (A @ (z @ [c])) (insert (n, c) P)
        (AList.delete c (AList.update c (d - 1) im))" by simp
    from Cons.IH [OF inv' Cons.prems(2) dcs rest] obtain im' z' where
      "relax_children cs (AList.delete c (AList.update c (d - 1) im), z @ [c]) = Inr (im', z')"
      "kahn_inv G (A @ z') (insert (n, c) P \<union> {n} \<times> set cs) im'" by blast
    with True d Peq show ?thesis by (simp add: Let_def)
  next
    case False
    from Cons.IH [OF pos [OF False] Cons.prems(2) dcs rest] obtain im' z' where
      "relax_children cs (AList.update c (d - 1) im, z) = Inr (im', z')"
      "kahn_inv G (A @ z') (insert (n, c) P \<union> {n} \<times> set cs) im'" by blast
    with False d Peq show ?thesis by (simp add: Let_def)
  qed
qed

lemma process_generation_inv:
  assumes wf: "wf_graph G"
  shows "kahn_inv G (A @ z) P im \<Longrightarrow> set ns \<subseteq> set A \<Longrightarrow> distinct ns \<Longrightarrow>
         \<forall>n \<in> set ns. \<forall>v. (n, v) \<notin> P \<Longrightarrow>
         \<exists>im' z'. process_generation G ns (im, z) = Inr (im', z') \<and>
                  kahn_inv G (A @ z') (P \<union> {e \<in> edge_set G. fst e \<in> set ns}) im'"
proof (induction ns arbitrary: im z P)
  case Nil
  then show ?case by simp
next
  case (Cons n ns)
  have nA: "n \<in> set A" using Cons.prems(2) by simp
  have "set (A @ z) \<subseteq> node_set G" using Cons.prems(1) by (simp add: kahn_inv_def)
  with nA have hn: "has_node G n" by (auto simp: has_node_def node_set_def)
  have dcs: "distinct (successors G n)"
    using wf by (simp add: wf_graph_def distinct_successors)
  have cs: "\<forall>c \<in> set (successors G n). (n, c) \<in> edge_set G \<and> (n, c) \<notin> P"
    using Cons.prems(4) by (simp add: successors_set)
  from relax_children_inv [OF wf Cons.prems(1) nA dcs cs] obtain im1 z1 where
    r: "relax_children (successors G n) (im, z) = Inr (im1, z1)" and
    inv1: "kahn_inv G (A @ z1) (P \<union> {n} \<times> set (successors G n)) im1" by blast
  let ?P1 = "P \<union> {n} \<times> set (successors G n)"
  have dns: "distinct ns" and nnot: "n \<notin> set ns" using Cons.prems(3) by auto
  have rest: "\<forall>n' \<in> set ns. \<forall>v. (n', v) \<notin> ?P1"
    using Cons.prems(4) nnot by auto
  have sub: "set ns \<subseteq> set A" using Cons.prems(2) by simp
  from Cons.IH [OF inv1 sub dns rest] obtain im' z' where
    p: "process_generation G ns (im1, z1) = Inr (im', z')" and
    inv': "kahn_inv G (A @ z') (?P1 \<union> {e \<in> edge_set G. fst e \<in> set ns}) im'" by blast
  have Peq: "?P1 \<union> {e \<in> edge_set G. fst e \<in> set ns} = P \<union> {e \<in> edge_set G. fst e \<in> set (n # ns)}"
    by (auto simp: successors_set)
  from r p hn inv' Peq show ?case by simp
qed

lemma no_minimal_cyclic:
  assumes fin: "finite r" and ne: "S \<noteq> {}" and pred: "\<forall>v \<in> S. \<exists>u \<in> S. (u, v) \<in> r"
  shows "\<not> acyclic r"
proof
  assume "acyclic r"
  with fin have "wf r" by (rule finite_acyclic_wf)
  from ne obtain x where "x \<in> S" by blast
  with \<open>wf r\<close> obtain m where "m \<in> S" and "\<And>y. (y, m) \<in> r \<Longrightarrow> y \<notin> S"
    using wfE_min [of r x S] by blast
  with pred show False by blast
qed

lemma unprocessed_nonemptyD:
  "unprocessed G P v \<noteq> {} \<Longrightarrow> \<exists>u. (u, v) \<in> edge_set G \<and> (u, v) \<notin> P"
  by (auto simp: unprocessed_def)

lemma generations_loop_Nil:
  "generations_loop G im [] = (if im \<noteq> [] then Inl NetworkXUnfeasible else Inr [])"
  by (subst generations_loop.simps) simp

lemma generations_loop_step:
  "z \<noteq> [] \<Longrightarrow> process_generation G z (im, []) = Inr (im', z') \<Longrightarrow>
   generations_loop G im z =
     (case generations_loop G im' z' of Inl e \<Rightarrow> Inl e | Inr gens \<Rightarrow> Inr (z # gens))"
  by (subst generations_loop.simps) simp

lemma generations_loop_inv:
  "wf_graph G \<Longrightarrow> kahn_inv G (D @ z) P im \<Longrightarrow> P = {e \<in> edge_set G. fst e \<in> set D} \<Longrightarrow>
         (case generations_loop G im z of
            Inr gens \<Rightarrow> topo_ok G (D @ concat gens)
          | Inl e \<Rightarrow> e = NetworkXUnfeasible \<and> \<not> acyclic (edge_set G))"
proof (induction G im z arbitrary: D P rule: generations_loop.induct)
  case (1 G im z)
  note wf = "1.prems"(1)
  note inv = "1.prems"(2)
  note Pdef = "1.prems"(3)
  from inv have dT: "distinct (D @ z)"
    and inT: "\<And>v. v \<in> set (D @ z) \<Longrightarrow> unprocessed G P v = {} \<and> map_of im v = None"
    and outT: "\<And>v. v \<in> node_set G \<Longrightarrow> v \<notin> set (D @ z) \<Longrightarrow>
          map_of im v = Some (int (card (unprocessed G P v))) \<and> unprocessed G P v \<noteq> {}"
    and outV: "\<And>v. v \<notin> node_set G \<Longrightarrow> map_of im v = None"
    and TV: "set (D @ z) \<subseteq> node_set G"
    and ord: "\<And>u v. (u, v) \<in> edge_set G \<Longrightarrow> v \<in> set (D @ z) \<Longrightarrow>
          u \<in> set (D @ z) \<and> list_index u (D @ z) < list_index v (D @ z)"
    unfolding kahn_inv_def by blast+
  show ?case
  proof (cases "z = []")
    case True
    show ?thesis
    proof (cases "im = []")
      case True
      have "set D = node_set G"
      proof
        show "set D \<subseteq> node_set G" using TV by simp
        show "node_set G \<subseteq> set D"
        proof
          fix v assume "v \<in> node_set G"
          then show "v \<in> set D" using outT [of v] \<open>z = []\<close> \<open>im = []\<close> by auto
        qed
      qed
      moreover have "\<forall>e \<in> edge_set G. list_index (fst e) D < list_index (snd e) D"
      proof
        fix e assume e: "e \<in> edge_set G"
        then have "snd e \<in> node_set G"
          using wf by (auto simp: wf_graph_def edge_set_def node_set_def)
        with \<open>set D = node_set G\<close> have "snd e \<in> set (D @ z)" by simp
        with ord [of "fst e" "snd e"] e \<open>z = []\<close> show "list_index (fst e) D < list_index (snd e) D"
          by simp
      qed
      ultimately have "topo_ok G D" using dT by (simp add: topo_ok_def)
      with True \<open>z = []\<close> show ?thesis by (simp add: generations_loop_Nil)
    next
      case False
      let ?S = "fst ` set im"
      have Sne: "?S \<noteq> {}" using False by simp
      have Spred: "\<forall>v \<in> ?S. \<exists>u \<in> ?S. (u, v) \<in> edge_set G"
      proof
        fix v assume "v \<in> ?S"
        then have mv: "map_of im v \<noteq> None" by (simp add: map_of_eq_None_iff)
        have vV: "v \<in> node_set G"
        proof (rule ccontr)
          assume "v \<notin> node_set G"
          from outV [OF this] mv show False by simp
        qed
        have vT: "v \<notin> set (D @ z)"
        proof
          assume "v \<in> set (D @ z)"
          from inT [OF this] mv show False by simp
        qed
        from outT [OF vV vT] have "unprocessed G P v \<noteq> {}" by (rule conjunct2)
        from unprocessed_nonemptyD [OF this]
        obtain u where u: "(u, v) \<in> edge_set G" "(u, v) \<notin> P" by blast
        then have "u \<notin> set (D @ z)" using \<open>z = []\<close> Pdef by simp
        moreover have "u \<in> node_set G"
          using wf u(1) by (auto simp: wf_graph_def edge_set_def node_set_def)
        ultimately have "map_of im u \<noteq> None" using outT [of u] by simp
        then have "u \<in> ?S" by (simp add: map_of_eq_None_iff)
        with u(1) show "\<exists>u \<in> ?S. (u, v) \<in> edge_set G" by blast
      qed
      have "finite (edge_set G)" by (simp add: edge_set_def)
      then have "\<not> acyclic (edge_set G)"
        using Sne Spred by (rule no_minimal_cyclic)
      with False \<open>z = []\<close> show ?thesis by (simp add: generations_loop_Nil)
    qed
  next
    case False
    have inv0: "kahn_inv G ((D @ z) @ []) P im" using inv by simp
    have fresh: "\<forall>n \<in> set z. \<forall>v. (n, v) \<notin> P" using dT Pdef by auto
    have sub: "set z \<subseteq> set (D @ z)" and dz: "distinct z" using dT by auto
    from process_generation_inv [OF wf inv0 sub dz fresh] obtain im' z' where
      p: "process_generation G z (im, []) = Inr (im', z')" and
      inv': "kahn_inv G ((D @ z) @ z') (P \<union> {e \<in> edge_set G. fst e \<in> set z}) im'"
      by blast
    have P': "P \<union> {e \<in> edge_set G. fst e \<in> set z} = {e \<in> edge_set G. fst e \<in> set (D @ z)}"
      unfolding Pdef by auto
    from "1.IH" [OF False p refl wf inv' P']
    have IH: "case generations_loop G im' z' of
            Inr gens \<Rightarrow> topo_ok G ((D @ z) @ concat gens)
          | Inl e \<Rightarrow> e = NetworkXUnfeasible \<and> \<not> acyclic (edge_set G)" .
    have unfold: "generations_loop G im z =
        (case generations_loop G im' z' of Inl e \<Rightarrow> Inl e | Inr gens \<Rightarrow> Inr (z # gens))"
      using False p by (rule generations_loop_step)
    show ?thesis
      using IH unfolding unfold by (cases "generations_loop G im' z'") simp_all
  qed
qed

lemma map_of_tabulate:
  "map_of (map (\<lambda>v. (v, f v)) xs) v = (if v \<in> set xs then Some (f v) else None)"
  by (induction xs) auto

lemma in_degree_zero_iff: "in_degree G v = 0 \<longleftrightarrow> (\<forall>u. (u, v) \<notin> edge_set G)"
proof -
  have "in_degree G v = 0 \<longleftrightarrow> set (predecessors G v) = {}"
    by (simp add: in_degree_def)
  also have "\<dots> \<longleftrightarrow> (\<forall>u. (u, v) \<notin> edge_set G)"
    unfolding predecessors_set by blast
  finally show ?thesis .
qed

lemma kahn_inv_initial:
  assumes wf: "wf_graph G"
  shows "kahn_inv G ([] @ filter (\<lambda>v. in_degree G v = 0) (node_ids G)) {}
           (map (\<lambda>v. (v, int (in_degree G v))) (filter (\<lambda>v. in_degree G v > 0) (node_ids G)))"
proof -
  let ?z = "filter (\<lambda>v. in_degree G v = 0) (node_ids G)"
  let ?im = "map (\<lambda>v. (v, int (in_degree G v))) (filter (\<lambda>v. in_degree G v > 0) (node_ids G))"
  from wf have dn: "distinct (node_ids G)" and de: "distinct (edge_keys G)"
    by (simp_all add: wf_graph_def)
  have un: "\<And>v. unprocessed G {} v = {u. (u, v) \<in> edge_set G}"
    by (simp add: unprocessed_def)
  have card: "\<And>v. card (unprocessed G {} v) = in_degree G v"
    using de by (simp add: un in_degree_card)
  have mim: "\<And>v. map_of ?im v = (if v \<in> node_set G \<and> in_degree G v > 0 then Some (int (in_degree G v)) else None)"
    by (simp add: map_of_tabulate node_set_def)
  have 1: "distinct ([] @ ?z)" using dn by simp
  have 2: "set ([] @ ?z) \<subseteq> node_set G" by (auto simp: node_set_def)
  have 5: "distinct (map fst ?im)" using dn by (simp add: comp_def)
  have 6: "\<forall>v. v \<in> set ([] @ ?z) \<longrightarrow> unprocessed G {} v = {} \<and> map_of ?im v = None"
  proof (intro allI impI)
    fix v assume "v \<in> set ([] @ ?z)"
    then have z: "in_degree G v = 0" by simp
    then have "unprocessed G {} v = {}" by (simp add: un in_degree_zero_iff)
    with z show "unprocessed G {} v = {} \<and> map_of ?im v = None" by (simp add: mim)
  qed
  have 7: "\<forall>v. v \<in> node_set G \<and> v \<notin> set ([] @ ?z) \<longrightarrow>
          map_of ?im v = Some (int (card (unprocessed G {} v))) \<and> unprocessed G {} v \<noteq> {}"
  proof (intro allI impI)
    fix v assume "v \<in> node_set G \<and> v \<notin> set ([] @ ?z)"
    then have v: "v \<in> node_set G" and pos: "in_degree G v > 0" by (auto simp: node_set_def)
    from pos have "unprocessed G {} v \<noteq> {}" using card [of v] by auto
    with v pos show "map_of ?im v = Some (int (card (unprocessed G {} v))) \<and> unprocessed G {} v \<noteq> {}"
      by (simp add: mim card)
  qed
  have 8: "\<forall>v. v \<notin> node_set G \<longrightarrow> map_of ?im v = None" by (simp add: mim)
  have 9: "\<forall>u v. (u, v) \<in> edge_set G \<and> v \<in> set ([] @ ?z) \<longrightarrow>
        u \<in> set ([] @ ?z) \<and> list_index u ([] @ ?z) < list_index v ([] @ ?z)"
  proof (intro allI impI)
    fix u v assume a: "(u, v) \<in> edge_set G \<and> v \<in> set ([] @ ?z)"
    then have "in_degree G v = 0" by simp
    then have "\<forall>u. (u, v) \<notin> edge_set G" by (simp add: in_degree_zero_iff)
    with a have False by blast
    then show "u \<in> set ([] @ ?z) \<and> list_index u ([] @ ?z) < list_index v ([] @ ?z)" ..
  qed
  from 1 2 5 6 7 8 9 show ?thesis unfolding kahn_inv_def by blast
qed

lemma topological_generations_correct:
  assumes wf: "wf_graph G"
  shows "case topological_generations G of
            Inr gens \<Rightarrow> topo_ok G (concat gens)
          | Inl e \<Rightarrow> e = NetworkXUnfeasible \<and> \<not> acyclic (edge_set G)"
proof -
  have "{} = {e \<in> edge_set G. fst e \<in> set []}" by simp
  from generations_loop_inv [OF wf kahn_inv_initial [OF wf] this]
  show ?thesis by (simp add: topological_generations_def split: sum.splits)
qed

lemma topo_ok_acyclic:
  assumes "topo_ok G xs"
  shows "acyclic (edge_set G)"
proof -
  have "edge_set G \<subseteq> inv_image less_than (\<lambda>x. list_index x xs)"
    using assms by (auto simp: topo_ok_def)
  moreover have "wf (inv_image less_than (\<lambda>x. list_index x xs))"
    by (intro wf_inv_image wf_less_than)
  ultimately have "wf (edge_set G)" by (rule wf_subset [rotated])
  then show ?thesis by (rule wf_acyclic)
qed

lemma topological_sort_acyclic:
  assumes wf: "wf_graph G" and ac: "acyclic (edge_set G)"
  shows "\<exists>xs. topological_sort G = Inr xs \<and> topo_ok G xs"
  using topological_generations_correct [OF wf] ac
  by (auto simp: topological_sort_def split: sum.splits)

lemma topological_sort_cyclic:
  assumes wf: "wf_graph G" and cyc: "\<not> acyclic (edge_set G)"
  shows "topological_sort G = Inl NetworkXUnfeasible"
  using topological_generations_correct [OF wf] cyc topo_ok_acyclic [of G]
  by (auto simp: topological_sort_def split: sum.splits)

lemma is_directed_acyclic_graph_iff:
  assumes wf: "wf_graph G"
  shows "is_directed_acyclic_graph G = Inr (acyclic (edge_set G))"
proof (cases "acyclic (edge_set G)")
  case True
  from topological_sort_acyclic [OF wf True] show ?thesis
    using True by (auto simp: is_directed_acyclic_graph_def has_cycle_def)
next
  case False
  from topological_sort_cyclic [OF wf False] show ?thesis
    using False by (simp add: is_directed_acyclic_graph_def has_cycle_def)
qed

section \<open>Ordering queries: supporting facts\<close>

lemma set_edges_data: "wf_graph G \<Longrightarrow> set (edges_data G) = set (edges G)"
  by (auto simp: edges_data_def wf_graph_def edge_keys_def)

lemma rel_edges_eq: "wf_chain c \<Longrightarrow> rel_edges c = edge_set (graph c)"
proof -
  assume "wf_chain c"
  then have wf: "wf_graph (graph c)" by (simp add: wf_chain_def)
  have "rel_edges c = fst ` set (edges_data (graph c))"
    by (auto simp: rel_edges_def relationships_def image_iff split: prod.splits) force+
  also have "\<dots> = edge_set (graph c)"
    by (simp add: set_edges_data [OF wf] edge_set_def edge_keys_def)
  finally show ?thesis .
qed

lemma mset_topo_ok: "wf_graph G \<Longrightarrow> topo_ok G xs \<Longrightarrow> mset xs = mset (node_ids G)"
  by (simp add: topo_ok_def wf_graph_def node_set_def set_eq_iff_mset_eq_distinct [symmetric])

lemma get_chain_acyclic:
  assumes wf: "wf_chain c" and ac: "acyclic (rel_edges c)"
  shows "\<exists>xs. get_chain c = Inr xs \<and> mset xs = mset (map fst (entities c)) \<and>
           (\<forall>r \<in> set (relationships c). list_index (source r) xs < list_index (target r) xs)"
proof -
  from wf have wfg: "wf_graph (graph c)" and ids: "map fst (entities c) = node_ids (graph c)"
    by (simp_all add: wf_chain_def entities_def)
  from ac have ac': "acyclic (edge_set (graph c))" by (simp add: rel_edges_eq [OF wf])
  from topological_sort_acyclic [OF wfg ac'] obtain xs where
    ts: "topological_sort (graph c) = Inr xs" and ok: "topo_ok (graph c) xs" by blast
  have 1: "get_chain c = Inr xs"
    by (simp add: get_chain_def is_directed_acyclic_graph_iff [OF wfg] ac' ts)
  have 2: "mset xs = mset (map fst (entities c))"
    using mset_topo_ok [OF wfg ok] ids by simp
  have 3: "\<forall>r \<in> set (relationships c). list_index (source r) xs < list_index (target r) xs"
  proof
    fix r assume "r \<in> set (relationships c)"
    then have "(source r, target r) \<in> rel_edges c" by (auto simp: rel_edges_def)
    then have "(source r, target r) \<in> edge_set (graph c)" by (simp add: rel_edges_eq [OF wf])
    with ok show "list_index (source r) xs < list_index (target r) xs"
      by (auto simp: topo_ok_def)
  qed
  from 1 2 3 show ?thesis by blast
qed

lemma cyclic_queries:
  assumes wf: "wf_chain c" and cyc: "\<not> acyclic (rel_edges c)"
  shows "is_valid_dag c = Inr False" "get_chain c = Inl cycle_error"
    "get_critical_path bf c = Inl cycle_error"
proof -
  from wf have wfg: "wf_graph (graph c)" by (simp add: wf_chain_def)
  from cyc have "\<not> acyclic (edge_set (graph c))" by (simp add: rel_edges_eq [OF wf])
  then have dag: "is_directed_acyclic_graph (graph c) = Inr False"
    by (simp add: is_directed_acyclic_graph_iff [OF wfg])
  show "is_valid_dag c = Inr False" by (simp add: is_valid_dag_def dag)
  show "get_chain c = Inl cycle_error" by (simp add: get_chain_def dag)
  show "get_critical_path bf c = Inl cycle_error" by (simp add: get_critical_path_def dag)
qed

lemma out_degree_zero_iff: "out_degree G v = 0 \<longleftrightarrow> (\<forall>u. (v, u) \<notin> edge_set G)"
proof -
  have "out_degree G v = 0 \<longleftrightarrow> set (successors G v) = {}"
    by (simp add: out_degree_def)
  also have "\<dots> \<longleftrightarrow> (\<forall>u. (v, u) \<notin> edge_set G)"
    unfolding successors_set by blast
  finally show ?thesis .
qed

lemma acyclic_has_source:
  assumes wf: "wf_graph G" and ac: "acyclic (edge_set G)" and ne: "node_ids G \<noteq> []"
  shows "source_nodes G \<noteq> []"
proof -
  have "finite (edge_set G)" by (simp add: edge_set_def)
  with ac have w: "wf (edge_set G)" by (intro finite_acyclic_wf)
  from ne obtain x where "x \<in> set (node_ids G)" by (cases "node_ids G") auto
  with w obtain m where m: "m \<in> set (node_ids G)"
    and min: "\<And>y. (y, m) \<in> edge_set G \<Longrightarrow> y \<notin> set (node_ids G)"
    using wfE_min [of "edge_set G" x "set (node_ids G)"] by blast
  have "\<forall>u. (u, m) \<notin> edge_set G"
  proof (intro allI notI)
    fix u assume e: "(u, m) \<in> edge_set G"
    then have "u \<in> set (node_ids G)" using wf by (auto simp: wf_graph_def edge_set_def)
    with min [OF e] show False by simp
  qed
  then have "in_degree G m = 0" by (simp add: in_degree_zero_iff)
  with m have "m \<in> set (source_nodes G)" by (simp add: source_nodes_def)
  then show ?thesis by auto
qed

lemma acyclic_has_sink:
  assumes wf: "wf_graph G" and ac: "acyclic (edge_set G)" and ne: "node_ids G \<noteq> []"
  shows "sink_nodes G \<noteq> []"
proof -
  have "finite ((edge_set G)\<inverse>)" by (simp add: edge_set_def)
  moreover from ac have "acyclic ((edge_set G)\<inverse>)" by simp
  ultimately have w: "wf ((edge_set G)\<inverse>)" by (intro finite_acyclic_wf)
  from ne obtain x where "x \<in> set (node_ids G)" by (cases "node_ids G") auto
  with w obtain m where m: "m \<in> set (node_ids G)"
    and min: "\<And>y. (y, m) \<in> (edge_set G)\<inverse> \<Longrightarrow> y \<notin> set (node_ids G)"
    using wfE_min [of "(edge_set G)\<inverse>" x "set (node_ids G)"] by blast
  have "\<forall>u. (m, u) \<notin> edge_set G"
  proof (intro allI notI)
    fix u assume e: "(m, u) \<in> edge_set G"
    then have "u \<in> set (node_ids G)" using wf by (auto simp: wf_graph_def edge_set_def)
    moreover from e have "(u, m) \<in> (edge_set G)\<inverse>" by simp
    ultimately show False using min by blast
  qed
  then have "out_degree G m = 0" by (simp add: out_degree_zero_iff)
  with m have "m \<in> set (sink_nodes G)" by (simp add: sink_nodes_def)
  then show ?thesis by auto
qed

lemma no_source_or_sink_cyclic:
  assumes wf: "wf_chain c" and ne: "nodes (graph c) \<noteq> []"
    and no: "source_nodes (graph c) = [] \<or> sink_nodes (graph c) = []"
  shows "\<not> acyclic (rel_edges c)"
proof
  assume "acyclic (rel_edges c)"
  then have ac: "acyclic (edge_set (graph c))" by (simp add: rel_edges_eq [OF wf])
  from wf have wfg: "wf_graph (graph c)" by (simp add: wf_chain_def)
  from ne have ne': "node_ids (graph c) \<noteq> []" by (simp add: node_ids_def)
  from acyclic_has_source [OF wfg ac ne'] acyclic_has_sink [OF wfg ac ne'] no
  show False by blast
qed

lemma acyclic_empty [simp]: "acyclic {}"
  by (simp add: acyclic_def)

lemma node_ids_empty [simp]: "node_ids (graph (new_chain i n d)) = []"
  by (simp add: new_chain_def empty_graph_def node_ids_def)

lemma edge_keys_empty [simp]: "edge_keys (graph (new_chain i n d)) = []"
  by (simp add: new_chain_def empty_graph_def edge_keys_def)

lemma node_ids_add_entity:
  "node_ids (graph (add_entity c e)) =
     (if entity_id e \<in> set (node_ids (graph c)) then node_ids (graph c)
      else node_ids (graph c) @ [entity_id e])"
  by (simp add: add_entity_def node_ids_add_node)

lemma edge_keys_add_entity [simp]: "edge_keys (graph (add_entity c e)) = edge_keys (graph c)"
  by (simp add: add_entity_def)

lemma graph_add_relationship:
  "\<not> endpoint_missing c r \<Longrightarrow>
   graph (snd (add_relationship c r)) =
     add_edge (graph c) (source_id r) (target_id r)
       \<lparr>edge_type = Some (Relationship.edge_type r),
        resource_id = Some (Relationship.resource_id r),
        description = Some (Relationship.description r)\<rparr>"
  by (simp add: add_relationship_def endpoint_missing_def entities_def)

lemma entities_add_relationship [simp]:
  "entities_dict (snd (add_relationship c r)) = entities_dict c"
  by (simp add: add_relationship_def)

lemma node_ids_chain_two: "node_ids (graph chain_two) = [''a'', ''b'']"
  by (simp add: chain_two_def node_ids_add_entity actor_a_def actor_b_def)

lemma edge_keys_chain_two: "edge_keys (graph chain_two) = []"
  by (simp add: chain_two_def)

lemma present_ab: "\<not> endpoint_missing chain_two (rel ''a'' ''b'')"
  by (simp add: endpoint_missing_def entities_def entities_chain_two rel_def)

lemma node_ids_chain_ab: "node_ids (graph chain_ab) = [''a'', ''b'']"
  unfolding chain_ab_def graph_add_relationship [OF present_ab] by (simp add: node_ids_add_edge
      node_ids_chain_two rel_def)

lemma edge_keys_chain_ab: "edge_keys (graph chain_ab) = [(''a'', ''b'')]"
  unfolding chain_ab_def graph_add_relationship [OF present_ab] by (simp add: edge_keys_add_edge
      edge_keys_chain_two rel_def)

lemma present_ba: "\<not> endpoint_missing chain_ab (rel ''b'' ''a'')"
  by (simp add: endpoint_missing_def entities_def chain_ab_def entities_chain_two rel_def)

lemma node_ids_chain_cycle: "node_ids (graph chain_cycle) = [''a'', ''b'']"
  unfolding chain_cycle_def graph_add_relationship [OF present_ba] by (simp add: node_ids_add_edge
      node_ids_chain_ab rel_def)

lemma edge_keys_chain_cycle: "edge_keys (graph chain_cycle) = [(''a'', ''b''), (''b'', ''a'')]"
  unfolding chain_cycle_def graph_add_relationship [OF present_ba] by (simp add: edge_keys_add_edge
      edge_keys_chain_ab rel_def)

lemma wf_chain_cycle: "wf_chain chain_cycle"
  unfolding chain_cycle_def by (intro wf_chain_add_relationship wf_chain_ab)

lemma acyclic_chain_ab: "acyclic (rel_edges chain_ab)"
  by (simp add: rel_edges_eq [OF wf_chain_ab] edge_set_def edge_keys_chain_ab acyclic_insert)

lemma cyclic_chain_cycle: "\<not> acyclic (rel_edges chain_cycle)"
proof -
  have "(''a'', ''a'') \<in> (edge_set (graph chain_cycle))\<^sup>+"
    by (rule trancl_trans [of _ "''b''"]) (auto simp: edge_set_def edge_keys_chain_cycle)
  then show ?thesis
    by (auto simp: rel_edges_eq [OF wf_chain_cycle] acyclic_def)
qed

lemma sources_chain_cycle: "source_nodes (graph chain_cycle) = []"
  by (simp add: source_nodes_def node_ids_chain_cycle in_degree_def predecessors_def
      edge_keys_chain_cycle)

lemma relationships_chain_ab:
  "map (\<lambda>r. (source r, target r)) (relationships chain_ab) = [(''a'', ''b'')]"
proof -
  have "map (\<lambda>r. (source r, target r)) (relationships c) = map fst (edges_data (graph c))" for c
    by (simp add: relationships_def split_def)
  also have "map fst (edges_data (graph chain_ab)) = [(''a'', ''b'')]"
    using edge_keys_chain_ab
    by (auto simp: edges_data_def node_ids_chain_ab edge_keys_def map_eq_Cons_conv)
  finally show ?thesis .
qed


section \<open>Correctness of the breadth-first search\<close>

lemma closed_under_mono: "closed_under G S seen \<Longrightarrow> closed_under G S (seen @ new)"
  by (auto simp: closed_under_def)

lemma bfs_children_inv:
  assumes wf: "wf_graph G"
  shows "bfs_inv G s seen out \<Longrightarrow> p \<in> set seen \<Longrightarrow> \<forall>c \<in> set cs. (p, c) \<in> edge_set G \<Longrightarrow>
         \<exists>new out'. bfs_children p cs (seen, nxt, out) = (seen @ new, nxt @ new, out')
            \<and> bfs_inv G s (seen @ new) out' \<and> set cs \<subseteq> set (seen @ new)"
proof (induction cs arbitrary: seen nxt out)
  case Nil
  then show ?case by simp
next
  case (Cons c cs)
  have edge: "(p, c) \<in> edge_set G" using Cons.prems(3) by simp
  show ?case
  proof (cases "c \<in> set seen")
    case True
    have rest: "\<forall>c \<in> set cs. (p, c) \<in> edge_set G" using Cons.prems(3) by simp
    from Cons.IH [OF Cons.prems(1,2) rest, of nxt] obtain new out' where
      "bfs_children p cs (seen, nxt, out) = (seen @ new, nxt @ new, out')"
      "bfs_inv G s (seen @ new) out'" "set cs \<subseteq> set (seen @ new)" by blast
    with True show ?thesis by auto
  next
    case False
    from Cons.prems(1) have inv: "s \<in> set seen" "distinct seen" "set seen \<subseteq> node_set G"
      "set seen \<subseteq> {v. (s, v) \<in> (edge_set G)\<^sup>*}" "set seen = insert s (snd ` set out)"
      "s \<notin> snd ` set out"
      unfolding bfs_inv_def by blast+
    have cV: "c \<in> node_set G"
      using wf edge by (auto simp: wf_graph_def edge_set_def node_set_def)
    have "(s, p) \<in> (edge_set G)\<^sup>*" using inv(4) Cons.prems(2) by auto
    with edge have reach: "(s, c) \<in> (edge_set G)\<^sup>*" by (auto intro: rtrancl_into_rtrancl)
    have cs: "c \<noteq> s" using False inv(1) by auto
    have inv': "bfs_inv G s (seen @ [c]) (out @ [(p, c)])"
      unfolding bfs_inv_def using inv False cV reach cs by auto
    have p': "p \<in> set (seen @ [c])" using Cons.prems(2) by simp
    have rest: "\<forall>c \<in> set cs. (p, c) \<in> edge_set G" using Cons.prems(3) by simp
    from Cons.IH [OF inv' p' rest, of "nxt @ [c]"] obtain new out' where
      "bfs_children p cs (seen @ [c], nxt @ [c], out @ [(p, c)]) = ((seen @ [c]) @ new, (nxt @ [c]) @ new, out')"
      "bfs_inv G s ((seen @ [c]) @ new) out'" "set cs \<subseteq> set ((seen @ [c]) @ new)" by blast
    with False have "bfs_children p (c # cs) (seen, nxt, out) = (seen @ (c # new), nxt @ (c # new), out')"
      "bfs_inv G s (seen @ (c # new)) out'" "set (c # cs) \<subseteq> set (seen @ (c # new))" by auto
    then show ?thesis by blast
  qed
qed

lemma bfs_level_inv:
  assumes wf: "wf_graph G"
  shows "bfs_inv G s seen out \<Longrightarrow> closed_under G S seen \<Longrightarrow> set ps \<subseteq> set seen \<Longrightarrow>
         \<exists>ret new out'. bfs_level G n ps (seen, nxt, out) = (ret, seen @ new, nxt @ new, out')
            \<and> bfs_inv G s (seen @ new) out'
            \<and> (if ret then length (seen @ new) = n else closed_under G (S \<union> set ps) (seen @ new))"
proof (induction ps arbitrary: seen nxt out S)
  case Nil
  have "bfs_level G n [] (seen, nxt, out) = (False, seen @ [], nxt @ [], out)" by simp
  moreover have "bfs_inv G s (seen @ []) out" using Nil by simp
  moreover have "closed_under G (S \<union> set []) (seen @ [])" using Nil by simp
  ultimately show ?case by (metis (full_types))
next
  case (Cons p ps)
  have pin: "p \<in> set seen" using Cons.prems(3) by simp
  have succ: "\<forall>c \<in> set (successors G p). (p, c) \<in> edge_set G" by (simp add: successors_set)
  from bfs_children_inv [OF wf Cons.prems(1) pin succ, of nxt] obtain new1 out1 where
    ch: "bfs_children p (successors G p) (seen, nxt, out) = (seen @ new1, nxt @ new1, out1)"
    and inv1: "bfs_inv G s (seen @ new1) out1"
    and sub: "set (successors G p) \<subseteq> set (seen @ new1)" by blast
  show ?case
  proof (cases "length (seen @ new1) = n")
    case True
    with ch have "bfs_level G n (p # ps) (seen, nxt, out) = (True, seen @ new1, nxt @ new1, out1)"
      by simp
    with inv1 True show ?thesis by (metis (full_types))
  next
    case False
    have cl1: "closed_under G (S \<union> {p}) (seen @ new1)"
      using closed_under_mono [OF Cons.prems(2), of new1] sub
      by (auto simp: closed_under_def successors_set)
    have ps1: "set ps \<subseteq> set (seen @ new1)" using Cons.prems(3) by auto
    from Cons.IH [OF inv1 cl1 ps1, of "nxt @ new1"] obtain ret new2 out2 where
      lv: "bfs_level G n ps (seen @ new1, nxt @ new1, out1) = (ret, (seen @ new1) @ new2, (nxt @ new1) @ new2, out2)"
      and inv2: "bfs_inv G s ((seen @ new1) @ new2) out2"
      and fin: "if ret then length ((seen @ new1) @ new2) = n
                else closed_under G ((S \<union> {p}) \<union> set ps) ((seen @ new1) @ new2)" by blast
    have "bfs_level G n (p # ps) (seen, nxt, out) = (ret, seen @ (new1 @ new2), nxt @ (new1 @ new2), out2)"
      using ch False lv by simp
    moreover have "bfs_inv G s (seen @ (new1 @ new2)) out2" using inv2 by simp
    moreover have "if ret then length (seen @ (new1 @ new2)) = n
                else closed_under G (S \<union> set (p # ps)) (seen @ (new1 @ new2))"
      using fin by (cases ret) (auto simp: closed_under_def)
    ultimately show ?thesis by blast
  qed
qed

lemma closed_under_subset: "closed_under G S seen \<Longrightarrow> S' \<subseteq> S \<Longrightarrow> closed_under G S' seen"
  by (auto simp: closed_under_def)

lemma reach_in_nodes:
  assumes wf: "wf_graph G" and s: "s \<in> node_set G" and r: "(s, v) \<in> (edge_set G)\<^sup>*"
  shows "v \<in> node_set G"
  using r
proof (induction rule: rtrancl_induct)
  case base
  then show ?case by (rule s)
next
  case (step y z)
  then show ?case using wf by (auto simp: wf_graph_def edge_set_def node_set_def)
qed

lemma card_node_set: "wf_graph G \<Longrightarrow> card (node_set G) = length (nodes G)"
proof -
  assume "wf_graph G"
  then have "distinct (node_ids G)" by (simp add: wf_graph_def)
  then have "card (set (node_ids G)) = length (node_ids G)" by (rule distinct_card)
  then show ?thesis by (simp add: node_set_def node_ids_def)
qed

lemma bfs_done:
  assumes wf: "wf_graph G" and inv: "bfs_inv G s seen out"
    and fin: "closed_under G (set seen) seen \<or> length seen = length (nodes G)"
  shows "snd ` set out = descendant_set (edge_set G) s"
proof -
  from inv have sin: "s \<in> set seen" and d: "distinct seen" and sV: "set seen \<subseteq> node_set G"
    and sub: "set seen \<subseteq> {v. (s, v) \<in> (edge_set G)\<^sup>*}"
    and eq: "set seen = insert s (snd ` set out)" and sout: "s \<notin> snd ` set out"
    unfolding bfs_inv_def by blast+
  have sup: "{v. (s, v) \<in> (edge_set G)\<^sup>*} \<subseteq> set seen"
  proof
    fix v assume "v \<in> {v. (s, v) \<in> (edge_set G)\<^sup>*}"
    then have r: "(s, v) \<in> (edge_set G)\<^sup>*" by simp
    from fin show "v \<in> set seen"
    proof
      assume cl: "closed_under G (set seen) seen"
      from r show ?thesis
      proof (induction rule: rtrancl_induct)
        case base
        then show ?case by (rule sin)
      next
        case (step y z)
        with cl show ?case by (auto simp: closed_under_def)
      qed
    next
      assume len: "length seen = length (nodes G)"
      have "card (set seen) = card (node_set G)"
        using d len by (simp add: distinct_card card_node_set [OF wf])
      with sV have "set seen = node_set G"
        by (intro card_subset_eq) (simp_all add: node_set_def)
      moreover have "v \<in> node_set G"
        using reach_in_nodes [OF wf _ r] sin sV by auto
      ultimately show ?thesis by simp
    qed
  qed
  from sub sup have "set seen = {v. (s, v) \<in> (edge_set G)\<^sup>*}" by blast
  with eq sout have "snd ` set out = {v. (s, v) \<in> (edge_set G)\<^sup>*} - {s}" by blast
  also have "\<dots> = descendant_set (edge_set G) s"
    by (auto simp: descendant_set_def rtrancl_eq_or_trancl)
  finally show ?thesis .
qed

lemma length_seen_le:
  assumes wf: "wf_graph G" and inv: "bfs_inv G s seen out"
  shows "length seen \<le> length (nodes G)"
proof -
  from inv have d: "distinct seen" and sV: "set seen \<subseteq> node_set G"
    unfolding bfs_inv_def by blast+
  have "length seen = card (set seen)" using d by (simp add: distinct_card)
  also have "\<dots> \<le> card (node_set G)" using sV by (intro card_mono) (simp_all add: node_set_def)
  also have "\<dots> = length (nodes G)"
    by (rule card_node_set [OF wf])
  finally show ?thesis .
qed

lemma bfs_loop_correct:
  assumes wf: "wf_graph G"
  shows "bfs_inv G s seen out \<Longrightarrow> closed_under G S seen \<Longrightarrow> set seen \<subseteq> S \<union> set nxt \<Longrightarrow>
         set nxt \<subseteq> set seen \<Longrightarrow> length (nodes G) + length nxt \<le> length seen + k \<Longrightarrow>
         snd ` set (bfs_loop G (length (nodes G)) k (seen, nxt, out)) = descendant_set (edge_set G) s"
proof (induction k arbitrary: seen nxt out S)
  case 0
  from length_seen_le [OF wf "0.prems"(1)] "0.prems"(5) have "length nxt = 0" by linarith
  then have "nxt = []" by simp
  with "0.prems"(2,3) have "closed_under G (set seen) seen"
    by (auto intro: closed_under_subset)
  from bfs_done [OF wf "0.prems"(1) disjI1 [OF this]] show ?case by simp
next
  case (Suc k)
  show ?case
  proof (cases "nxt = []")
    case True
    with Suc.prems(2,3) have "closed_under G (set seen) seen"
      by (auto intro: closed_under_subset)
    from bfs_done [OF wf Suc.prems(1) disjI1 [OF this]] True show ?thesis by simp
  next
    case False
    from bfs_level_inv [OF wf Suc.prems(1,2,4), of "length (nodes G)" "[]"]
    obtain ret new out' where
      lv: "bfs_level G (length (nodes G)) nxt (seen, [], out) = (ret, seen @ new, [] @ new, out')"
      and inv': "bfs_inv G s (seen @ new) out'"
      and fin: "if ret then length (seen @ new) = length (nodes G)
                else closed_under G (S \<union> set nxt) (seen @ new)" by blast
    show ?thesis
    proof (cases ret)
      case True
      with fin have "length (seen @ new) = length (nodes G)" by simp
      from bfs_done [OF wf inv' disjI2 [OF this]] lv True False show ?thesis by simp
    next
      case ret: False
      with fin have cl: "closed_under G (S \<union> set nxt) (seen @ new)" by simp
      have a: "set (seen @ new) \<subseteq> (S \<union> set nxt) \<union> set new" using Suc.prems(3) by auto
      have b: "set new \<subseteq> set (seen @ new)" by simp
      have "length nxt \<ge> 1" using False by (cases nxt) simp_all
      with Suc.prems(5) have c: "length (nodes G) + length new \<le> length (seen @ new) + k" by simp
      from Suc.IH [OF inv' cl a b c] lv ret False show ?thesis by simp
    qed
  qed
qed

lemma bfs_edges_correct:
  assumes wf: "wf_graph G" and s: "s \<in> node_set G"
  shows "\<exists>es. bfs_edges G s = Inr es \<and> snd ` set es = descendant_set (edge_set G) s"
proof -
  have inv: "bfs_inv G s [s] []" using s by (simp add: bfs_inv_def)
  have cl: "closed_under G {} [s]" by (simp add: closed_under_def)
  from bfs_loop_correct [OF wf inv cl, of "[s]" "length (nodes G)"]
  have "snd ` set (bfs_loop G (length (nodes G)) (length (nodes G)) ([s], [s], [])) = descendant_set (edge_set G) s"
    by simp
  with s show ?thesis by (simp add: bfs_edges_def has_node_def node_set_def)
qed

lemma descendants_correct:
  assumes wf: "wf_graph G" and s: "s \<in> node_set G"
  shows "\<exists>ds. descendants G s = Inr ds \<and> distinct ds \<and> set ds = descendant_set (edge_set G) s"
  using bfs_edges_correct [OF wf s] by (auto simp: descendants_def)

lemma intervention_score_card:
  assumes wf: "wf_chain c" and n: "n \<in> set (map fst (entities c))"
  shows "intervention_score c n = Inr (int (card (descendant_set (rel_edges c) n)))"
proof -
  from wf have wfg: "wf_graph (graph c)" by (simp add: wf_chain_def)
  from wf n have nV: "n \<in> node_set (graph c)" by (simp add: wf_chain_def entities_def node_set_def)
  from descendants_correct [OF wfg nV] obtain ds where
    ds: "descendants (graph c) n = Inr ds" "distinct ds"
    "set ds = descendant_set (edge_set (graph c)) n" by blast
  then have "length ds = card (descendant_set (rel_edges c) n)"
    by (simp add: rel_edges_eq [OF wf] distinct_card [symmetric])
  with ds(1) nV show ?thesis
    by (simp add: intervention_score_def has_node_def node_set_def)
qed

lemma rel_edges_chain_ab: "rel_edges chain_ab = {(''a'', ''b'')}"
  by (simp add: rel_edges_eq [OF wf_chain_ab] edge_set_def edge_keys_chain_ab)

lemma trancl_single: "{(a, b)}\<^sup>+ = (if a = b then {(a, a)} else {(a, b)})"
  by (auto elim: trancl.induct)

lemma descendant_set_chain_ab:
  "descendant_set (rel_edges chain_ab) ''a'' = {''b''}"
  "descendant_set (rel_edges chain_ab) ''b'' = {}"
  by (auto simp: descendant_set_def rel_edges_chain_ab trancl_single)


section \<open>Correctness of the simple-path search\<close>

lemma ext_paths_Nil [simp]: "ext_paths E path [] t = {}"
  by (simp add: ext_paths_def)

lemma ext_paths_split:
  "ext_paths E path (x # rest) t = ext_paths E path [x] t \<union> ext_paths E path rest t"
  by (auto simp: ext_paths_def)

lemma ext_paths_in_path: "x \<in> set path \<Longrightarrow> ext_paths E path [x] t = {}"
proof -
  assume x: "x \<in> set path"
  have False if "q \<noteq> []" "hd q = x" "distinct (path @ q)" for q
  proof -
    from that(1,2) have "x \<in> set q" by (cases q) auto
    with x that(3) show False by auto
  qed
  then show ?thesis by (auto simp: ext_paths_def)
qed

lemma ext_paths_head:
  assumes "x \<notin> set path" and "distinct path"
  shows "ext_paths (edge_set G) path [x] t =
           (if x = t then {path @ [x]} else {}) \<union>
           ext_paths (edge_set G) (path @ [x]) (successors G x) t"
    (is "?L = ?A \<union> ?B")
proof (intro set_eqI iffI)
  fix p assume "p \<in> ?L"
  then obtain q where q: "p = path @ q" "q \<noteq> []" "hd q = x" "distinct (path @ q)"
    "successively (\<lambda>u v. (u, v) \<in> edge_set G) q" "last q = t"
    by (auto simp: ext_paths_def)
  from q(2,3) obtain q' where qq: "q = x # q'" by (cases q) auto
  show "p \<in> ?A \<union> ?B"
  proof (cases "q' = []")
    case True
    with q qq show ?thesis by simp
  next
    case False
    then obtain y q'' where q': "q' = y # q''" by (cases q') auto
    have "p = (path @ [x]) @ q'" using q(1) qq by simp
    moreover have "hd q' \<in> set (successors G x)"
      using q(5) qq q' by (simp add: successors_set)
    moreover have "distinct ((path @ [x]) @ q')" using q(4) qq by simp
    moreover have "successively (\<lambda>u v. (u, v) \<in> edge_set G) q'" using q(5) qq q' by simp
    moreover have "last q' = t" using q(6) qq False by simp
    ultimately have "p \<in> ?B" using False unfolding ext_paths_def by blast
    then show ?thesis by simp
  qed
next
  fix p assume "p \<in> ?A \<union> ?B"
  then show "p \<in> ?L"
  proof
    assume "p \<in> ?A"
    then have "x = t" "p = path @ [x]" by (auto split: if_splits)
    with assms show ?thesis by (auto simp: ext_paths_def intro!: exI [of _ "[x]"])
  next
    assume "p \<in> ?B"
    then obtain q' where q': "p = (path @ [x]) @ q'" "q' \<noteq> []" "hd q' \<in> set (successors G x)"
      "distinct ((path @ [x]) @ q')" "successively (\<lambda>u v. (u, v) \<in> edge_set G) q'" "last q' = t"
      by (auto simp: ext_paths_def)
    from q'(2) obtain y q'' where yq: "q' = y # q''" by (cases q') auto
    have "p = path @ (x # q')" using q'(1) by simp
    moreover have "distinct (path @ (x # q'))" using q'(4) by simp
    moreover have "successively (\<lambda>u v. (u, v) \<in> edge_set G) (x # q')"
      using q'(3,5) yq by (simp add: successors_set)
    moreover have "last (x # q') = t" using q'(2,6) by simp
    ultimately show ?thesis unfolding ext_paths_def by fastforce
  qed
qed

lemma path_in_nodes:
  assumes wf: "wf_graph G"
  shows "successively (\<lambda>u v. (u, v) \<in> edge_set G) q \<Longrightarrow> q \<noteq> [] \<Longrightarrow> hd q \<in> node_set G \<Longrightarrow>
         set q \<subseteq> node_set G"
proof (induction q rule: induct_list012)
  case 1
  then show ?case by simp
next
  case (2 x)
  then show ?case by simp
next
  case (3 x y zs)
  from "3.prems" have "(x, y) \<in> edge_set G" by simp
  then have "y \<in> node_set G" using wf by (auto simp: wf_graph_def edge_set_def node_set_def)
  with 3 show ?case by simp
qed

lemma distinct_length_le:
  assumes "wf_graph G" "distinct xs" "set xs \<subseteq> node_set G"
  shows "length xs \<le> length (nodes G)"
proof -
  have "length xs = card (set xs)" using assms(2) by (simp add: distinct_card)
  also have "\<dots> \<le> card (node_set G)"
    using assms(3) by (intro card_mono) (simp_all add: node_set_def)
  also have "\<dots> = length (nodes G)" by (rule card_node_set [OF assms(1)])
  finally show ?thesis .
qed

lemma ext_paths_dead:
  assumes wf: "wf_graph G" and sub: "set path \<subseteq> node_set G" and x: "x \<in> node_set G"
    and dead: "\<not> (int (length path) < int (length (nodes G)) - 1 \<and> t \<notin> set path \<and> t \<noteq> x)"
  shows "ext_paths (edge_set G) (path @ [x]) (successors G x) t = {}"
proof -
  have False if q: "q \<noteq> []" "hd q \<in> set (successors G x)" "distinct ((path @ [x]) @ q)"
    "successively (\<lambda>u v. (u, v) \<in> edge_set G) q" "last q = t" for q
  proof -
    have tq: "t \<in> set q" using q(1,5) last_in_set by blast
    have "(x, hd q) \<in> edge_set G" using q(2) by (simp add: successors_set)
    then have "hd q \<in> node_set G" using wf by (auto simp: wf_graph_def edge_set_def node_set_def)
    from path_in_nodes [OF wf q(4,1) this] have qV: "set q \<subseteq> node_set G" .
    have "set ((path @ [x]) @ q) \<subseteq> node_set G" using sub x qV by simp
    from distinct_length_le [OF wf q(3) this]
    have len: "length path + 1 + length q \<le> length (nodes G)" by simp
    have "length q \<ge> 1" using q(1) by (cases q) simp_all
    with len have "int (length path) < int (length (nodes G)) - 1" by linarith
    moreover have "t \<notin> set path" using tq q(3) by auto
    moreover have "t \<noteq> x" using tq q(3) by auto
    ultimately show False using dead by blast
  qed
  then show ?thesis unfolding ext_paths_def by blast
qed

lemma simple_paths_from_set:
  assumes wf: "wf_graph G"
  shows "targets = [t] \<Longrightarrow> cutoff = int (length (nodes G)) - 1 \<Longrightarrow> set path \<subseteq> node_set G \<Longrightarrow>
         set pend \<subseteq> node_set G \<Longrightarrow> distinct path \<Longrightarrow>
         set (simple_paths_from G targets cutoff path pend) = ext_paths (edge_set G) path pend t"
  using wf
proof (induction G targets cutoff path pend rule: simple_paths_from.induct)
  case (1 G targets cutoff path)
  then show ?case by (simp add: simple_paths_from.simps(1))
next
  case (2 G targets cutoff path x rest)
  note dp = "2.prems"(5)
  note wf = "2.prems"(6)
  have xV: "x \<in> node_set G" and restV: "set rest \<subseteq> node_set G" using "2.prems"(4) by auto
  show ?case
  proof (cases "x \<in> set path")
    case True
    from "2.IH"(1) [OF True "2.prems"(1,2,3) restV dp wf]
    have "set (simple_paths_from G targets cutoff path rest) = ext_paths (edge_set G) path rest t" .
    moreover have "simple_paths_from G targets cutoff path (x # rest)
        = simple_paths_from G targets cutoff path rest"
      using True by (subst simple_paths_from.simps(2)) simp
    ultimately show ?thesis
      by (simp add: ext_paths_split [of _ _ x rest] ext_paths_in_path [OF True])
  next
    case False
    let ?cond = "int (length path) < cutoff \<and> (\<exists>t \<in> set targets. t \<notin> set path \<and> t \<noteq> x)"
    have C: "set (simple_paths_from G targets cutoff path rest) = ext_paths (edge_set G) path rest t"
      using "2.IH"(3) [OF False "2.prems"(1,2,3) restV dp wf] .
    have B: "set (if ?cond then simple_paths_from G targets cutoff (path @ [x]) (successors G x) else [])
           = ext_paths (edge_set G) (path @ [x]) (successors G x) t"
    proof (cases ?cond)
      case True
      have p': "set (path @ [x]) \<subseteq> node_set G" using "2.prems"(3) xV by simp
      have s': "set (successors G x) \<subseteq> node_set G"
        using wf by (auto simp: successors_set wf_graph_def edge_set_def node_set_def)
      have d': "distinct (path @ [x])" using dp False by simp
      from "2.IH"(2) [OF False True "2.prems"(1,2) p' s' d' wf] True show ?thesis by simp
    next
      case no: False
      then have "\<not> (int (length path) < int (length (nodes G)) - 1 \<and> t \<notin> set path \<and> t \<noteq> x)"
        using "2.prems"(1,2) by simp
      from ext_paths_dead [OF wf "2.prems"(3) xV this] no show ?thesis by simp
    qed
    have A: "set (if x \<in> set targets then [path @ [x]] else []) = (if x = t then {path @ [x]} else {})"
      using "2.prems"(1) by auto
    have "set (simple_paths_from G targets cutoff path (x # rest)) =
        set (if x \<in> set targets then [path @ [x]] else [])
        \<union> set (if ?cond then simple_paths_from G targets cutoff (path @ [x]) (successors G x) else [])
        \<union> set (simple_paths_from G targets cutoff path rest)"
      using False by (subst simple_paths_from.simps(2)) (simp add: Un_assoc)
    also have "\<dots> = ext_paths (edge_set G) path (x # rest) t"
      unfolding A B C ext_paths_split [of _ _ x rest] ext_paths_head [OF False dp] by simp
    finally show ?thesis .
  qed
qed

lemma simple_paths_from_distinct:
  assumes wf: "wf_graph G"
  shows "targets = [t] \<Longrightarrow> cutoff = int (length (nodes G)) - 1 \<Longrightarrow> set path \<subseteq> node_set G \<Longrightarrow>
         set pend \<subseteq> node_set G \<Longrightarrow> distinct path \<Longrightarrow> distinct pend \<Longrightarrow>
         distinct (simple_paths_from G targets cutoff path pend)"
  using wf
proof (induction G targets cutoff path pend rule: simple_paths_from.induct)
  case (1 G targets cutoff path)
  then show ?case by (simp add: simple_paths_from.simps(1))
next
  case (2 G targets cutoff path x rest)
  note dp = "2.prems"(5)
  note wf = "2.prems"(7)
  have xV: "x \<in> node_set G" and restV: "set rest \<subseteq> node_set G" using "2.prems"(4) by auto
  have drest: "distinct rest" and xrest: "x \<notin> set rest" using "2.prems"(6) by auto
  show ?case
  proof (cases "x \<in> set path")
    case True
    from "2.IH"(1) [OF True "2.prems"(1,2,3) restV dp drest wf]
    have "distinct (simple_paths_from G targets cutoff path rest)" .
    moreover have "simple_paths_from G targets cutoff path (x # rest)
        = simple_paths_from G targets cutoff path rest"
      using True by (subst simple_paths_from.simps(2)) simp
    ultimately show ?thesis by simp
  next
    case False
    let ?cond = "int (length path) < cutoff \<and> (\<exists>t \<in> set targets. t \<notin> set path \<and> t \<noteq> x)"
    let ?A = "if x \<in> set targets then [path @ [x]] else []"
    let ?B = "if ?cond then simple_paths_from G targets cutoff (path @ [x]) (successors G x) else []"
    let ?C = "simple_paths_from G targets cutoff path rest"
    have p': "set (path @ [x]) \<subseteq> node_set G" using "2.prems"(3) xV by simp
    have s': "set (successors G x) \<subseteq> node_set G"
      using wf by (auto simp: successors_set wf_graph_def edge_set_def node_set_def)
    have d': "distinct (path @ [x])" using dp False by simp
    have ds: "distinct (successors G x)" using wf by (simp add: wf_graph_def distinct_successors)
    have dC: "distinct ?C" using "2.IH"(3) [OF False "2.prems"(1,2,3) restV dp drest wf] .
    have dB: "distinct ?B"
    proof (cases ?cond)
      case True
      from "2.IH"(2) [OF False True "2.prems"(1,2) p' s' d' ds wf] True show ?thesis by simp
    next
      case no: False
      then have "?B = []" by (rule if_not_P)
      then show ?thesis by (simp only: distinct.simps)
    qed
    have dA: "distinct ?A" by simp
    have sC: "set ?C = ext_paths (edge_set G) path rest t"
      using simple_paths_from_set [OF wf "2.prems"(1,2,3) restV dp] .
    have sB: "set ?B \<subseteq> ext_paths (edge_set G) (path @ [x]) (successors G x) t"
      using simple_paths_from_set [OF wf "2.prems"(1,2) p' s' d'] by auto
    have sA: "set ?A \<subseteq> {path @ [x]}" by auto
    have B_shape: "\<exists>q. p = path @ x # q \<and> q \<noteq> []" if "p \<in> set ?B" for p
      using sB that by (auto simp: ext_paths_def)
    have C_shape: "\<exists>y q. p = path @ y # q \<and> y \<noteq> x" if "p \<in> set ?C" for p
    proof -
      from that sC obtain q where q: "p = path @ q" "q \<noteq> []" "hd q \<in> set rest"
        by (auto simp: ext_paths_def)
      then obtain y q' where "q = y # q'" by (cases q) auto
      with q xrest show ?thesis by auto
    qed
    have AB: "set ?A \<inter> set ?B = {}" using sA B_shape by fastforce
    have AC: "set ?A \<inter> set ?C = {}" using sA C_shape by fastforce
    have BC: "set ?B \<inter> set ?C = {}"
    proof (rule ccontr)
      assume "set ?B \<inter> set ?C \<noteq> {}"
      then obtain p where "p \<in> set ?B" "p \<in> set ?C" by blast
      with B_shape [of p] C_shape [of p] show False by auto
    qed
    have "simple_paths_from G targets cutoff path (x # rest) = ?A @ ?B @ ?C"
      using False by (subst simple_paths_from.simps(2)) simp
    moreover have "distinct (?A @ ?B @ ?C)"
      using dA dB dC AB AC BC by (simp only: distinct_append set_append) blast
    ultimately show ?thesis by simp
  qed
qed

lemma all_simple_paths_correct:
  assumes wf: "wf_graph G" and s: "s \<in> node_set G" and t: "t \<in> node_set G"
  shows "\<exists>ps. all_simple_paths G s t = Inr ps \<and> distinct ps \<and>
           set ps = {p. simple_path (edge_set G) p \<and> hd p = s \<and> last p = t}"
proof -
  let ?cutoff = "int (length (nodes G)) - 1"
  let ?ps = "simple_paths_from G [t] ?cutoff [] [s]"
  have ne: "nodes G \<noteq> []" using s by (auto simp: node_set_def node_ids_def)
  then have c0: "?cutoff \<ge> 0" by (cases "nodes G") simp_all
  have 1: "all_simple_paths G s t = Inr ?ps"
    using s t c0 by (simp add: all_simple_paths_def has_node_def node_set_def Let_def)
  have 2: "distinct ?ps"
    using simple_paths_from_distinct [OF wf refl refl, of "[]" "[s]"] s by simp
  have "set ?ps = ext_paths (edge_set G) [] [s] t"
    using simple_paths_from_set [OF wf refl refl, of "[]" "[s]"] s by simp
  also have "\<dots> = {p. simple_path (edge_set G) p \<and> hd p = s \<and> last p = t}"
    by (auto simp: ext_paths_def simple_path_def)
  finally have 3: "set ?ps = {p. simple_path (edge_set G) p \<and> hd p = s \<and> last p = t}" .
  from 1 2 3 show ?thesis by blast
qed

lemma threads_of_source_ok:
  assumes wf: "wf_graph G" and s: "s \<in> node_set G"
  shows "set sinks \<subseteq> node_set G \<Longrightarrow> distinct sinks \<Longrightarrow>
         \<exists>ts. threads_of_source G ids s sinks acc = Inr (acc @ ts) \<and> distinct ts \<and>
              set ts = {p. simple_path (edge_set G) p \<and> hd p = s \<and> last p \<in> set sinks \<and>
                           (\<exists>n \<in> set p. n \<in> set ids)}"
proof (induction sinks arbitrary: acc)
  case Nil
  then show ?case by simp
next
  case (Cons t sinks)
  then have t: "t \<in> node_set G" and sub: "set sinks \<subseteq> node_set G"
    and d: "distinct sinks" and tn: "t \<notin> set sinks" by auto
  from all_simple_paths_correct [OF wf s t] obtain ps where
    ps: "all_simple_paths G s t = Inr ps" "distinct ps"
    "set ps = {p. simple_path (edge_set G) p \<and> hd p = s \<and> last p = t}" by blast
  let ?fs = "filter (\<lambda>path. \<exists>n \<in> set path. n \<in> set ids) ps"
  from Cons.IH [OF sub d, of "acc @ ?fs"] obtain ts where
    ts: "threads_of_source G ids s sinks (acc @ ?fs) = Inr ((acc @ ?fs) @ ts)" "distinct ts"
    "set ts = {p. simple_path (edge_set G) p \<and> hd p = s \<and> last p \<in> set sinks \<and>
                  (\<exists>n \<in> set p. n \<in> set ids)}" by blast
  have 1: "threads_of_source G ids s (t # sinks) acc = Inr (acc @ (?fs @ ts))"
    using ps(1) ts(1) by simp
  have "set ?fs \<inter> set ts = {}" using ps(3) ts(3) tn by auto
  with ps(2) ts(2) have 2: "distinct (?fs @ ts)" by simp
  have 3: "set (?fs @ ts) = {p. simple_path (edge_set G) p \<and> hd p = s \<and> last p \<in> set (t # sinks) \<and>
                  (\<exists>n \<in> set p. n \<in> set ids)}"
    using ps(3) ts(3) by auto
  from 1 2 3 show ?case by blast
qed

lemma threads_of_sources_ok:
  assumes wf: "wf_graph G" and sinks: "set sinks \<subseteq> node_set G" "distinct sinks"
  shows "set sources \<subseteq> node_set G \<Longrightarrow> distinct sources \<Longrightarrow>
         \<exists>ts. threads_of_sources G ids sources sinks acc = Inr (acc @ ts) \<and> distinct ts \<and>
              set ts = {p. simple_path (edge_set G) p \<and> hd p \<in> set sources \<and> last p \<in> set sinks \<and>
                           (\<exists>n \<in> set p. n \<in> set ids)}"
proof (induction sources arbitrary: acc)
  case Nil
  then show ?case by simp
next
  case (Cons s sources)
  then have s: "s \<in> node_set G" and sub: "set sources \<subseteq> node_set G"
    and d: "distinct sources" and sn: "s \<notin> set sources" by auto
  from threads_of_source_ok [OF wf s sinks, of ids acc] obtain fs where
    fs: "threads_of_source G ids s sinks acc = Inr (acc @ fs)" "distinct fs"
    "set fs = {p. simple_path (edge_set G) p \<and> hd p = s \<and> last p \<in> set sinks \<and>
                  (\<exists>n \<in> set p. n \<in> set ids)}" by blast
  from Cons.IH [OF sub d, of "acc @ fs"] obtain ts where
    ts: "threads_of_sources G ids sources sinks (acc @ fs) = Inr ((acc @ fs) @ ts)" "distinct ts"
    "set ts = {p. simple_path (edge_set G) p \<and> hd p \<in> set sources \<and> last p \<in> set sinks \<and>
                  (\<exists>n \<in> set p. n \<in> set ids)}" by blast
  have 1: "threads_of_sources G ids (s # sources) sinks acc = Inr (acc @ (fs @ ts))"
    using fs(1) ts(1) by simp
  have "set fs \<inter> set ts = {}" using fs(3) ts(3) sn by auto
  with fs(2) ts(2) have 2: "distinct (fs @ ts)" by simp
  have 3: "set (fs @ ts) = {p. simple_path (edge_set G) p \<and> hd p \<in> set (s # sources) \<and>
                  last p \<in> set sinks \<and> (\<exists>n \<in> set p. n \<in> set ids)}"
    using fs(3) ts(3) by auto
  from 1 2 3 show ?case by blast
qed

lemma type_name_Narrative: "type_name e = ''Narrative'' \<longleftrightarrow> (\<exists>x. e = ENarrative x)"
  by (cases e) simp_all

lemma narrative_ids_iff:
  assumes wf: "wf_chain c"
  shows "n \<in> set (map entity_id (get_entities_by_type c ''Narrative'')) \<longleftrightarrow> is_narrative c n"
proof -
  from wf have dk: "distinct (map fst (entities_dict c))"
    and own: "\<And>p. p \<in> set (entities_dict c) \<Longrightarrow> entity_id (snd p) = fst p"
    by (auto simp: wf_chain_def wf_graph_def)
  show ?thesis
  proof
    assume "n \<in> set (map entity_id (get_entities_by_type c ''Narrative''))"
    then obtain k e where ke: "(k, e) \<in> set (entities_dict c)" "type_name e = ''Narrative''"
      "entity_id e = n"
      by (auto simp: get_entities_by_type_def)
    from own [OF ke(1)] ke(3) have "k = n" by simp
    with ke(1) dk have "map_of (entities_dict c) n = Some e" by (simp add: map_of_is_SomeI)
    with ke(2) show "is_narrative c n"
      by (auto simp: is_narrative_def get_entity_def type_name_Narrative)
  next
    assume "is_narrative c n"
    then obtain x where "map_of (entities_dict c) n = Some (ENarrative x)"
      by (auto simp: is_narrative_def get_entity_def split: option.splits Entity.splits)
    then have m: "(n, ENarrative x) \<in> set (entities_dict c)" by (rule map_of_SomeD)
    from own [OF m] have "entity_id (ENarrative x) = n" by simp
    moreover from m have "ENarrative x \<in> set (get_entities_by_type c ''Narrative'')"
      by (force simp: get_entities_by_type_def)
    ultimately show "n \<in> set (map entity_id (get_entities_by_type c ''Narrative''))"
      by force
  qed
qed

lemma source_nodes_iff:
  "s \<in> set (source_nodes G) \<longleftrightarrow> s \<in> node_set G \<and> (\<forall>u. (u, s) \<notin> edge_set G)"
  by (auto simp: source_nodes_def node_set_def in_degree_zero_iff)

lemma sink_nodes_iff:
  "s \<in> set (sink_nodes G) \<longleftrightarrow> s \<in> node_set G \<and> (\<forall>u. (s, u) \<notin> edge_set G)"
  by (auto simp: sink_nodes_def node_set_def out_degree_zero_iff)

lemma narrative_threads_ok:
  assumes wf: "wf_chain c"
  shows "\<exists>ts. narrative_threads c = Inr ts \<and> distinct ts \<and> set ts = {p. narrative_thread c p}"
proof -
  from wf have wfg: "wf_graph (graph c)" and ids: "map fst (entities c) = node_ids (graph c)"
    by (simp_all add: wf_chain_def entities_def)
  let ?G = "graph c"
  let ?ids = "remdups (map entity_id (get_entities_by_type c ''Narrative''))"
  have narr: "\<And>n. n \<in> set ?ids \<longleftrightarrow> is_narrative c n"
    using narrative_ids_iff [OF wf] by simp
  have E: "rel_edges c = edge_set ?G" by (rule rel_edges_eq [OF wf])
  have V: "set (map fst (entities c)) = node_set ?G" by (simp add: ids node_set_def)
  show ?thesis
  proof (cases "?ids = []")
    case True
    then have "\<And>n. \<not> is_narrative c n" using narr by (metis empty_iff empty_set)
    then have "{p. narrative_thread c p} = {}" by (auto simp: narrative_thread_def)
    moreover from True have "narrative_threads c = Inr []"
      by (simp add: narrative_threads_def Let_def)
    ultimately show ?thesis by simp
  next
    case False
    have dn: "distinct (node_ids ?G)" using wfg by (simp add: wf_graph_def)
    have so: "set (source_nodes ?G) \<subseteq> node_set ?G" "distinct (source_nodes ?G)"
      using dn by (auto simp: source_nodes_def node_set_def)
    have si: "set (sink_nodes ?G) \<subseteq> node_set ?G" "distinct (sink_nodes ?G)"
      using dn by (auto simp: sink_nodes_def node_set_def)
    from threads_of_sources_ok [OF wfg si so, of ?ids "[]"] obtain ts where
      ts: "threads_of_sources ?G ?ids (source_nodes ?G) (sink_nodes ?G) [] = Inr ts" "distinct ts"
      "set ts = {p. simple_path (edge_set ?G) p \<and> hd p \<in> set (source_nodes ?G) \<and>
                    last p \<in> set (sink_nodes ?G) \<and> (\<exists>n \<in> set p. n \<in> set ?ids)}"
      by auto
    have 1: "narrative_threads c = Inr ts"
      using False ts(1) by (simp add: narrative_threads_def Let_def)
    have 3: "set ts = {p. narrative_thread c p}"
      unfolding ts(3) narrative_thread_def E V source_nodes_iff sink_nodes_iff
      using narr by auto
    from 1 ts(2) 3 show ?thesis by blast
  qed
qed

lemma length_nodes: "length (nodes G) = length (node_ids G)"
  by (simp add: node_ids_def)

lemma graph_chain_an:
  "node_ids (graph chain_an) = [''a'', ''n'']"
  "edge_keys (graph chain_an) = [(''a'', ''n'')]"
  "entities_dict chain_an = [(''a'', actor_a), (''n'', narrative_n)]"
    by (simp_all add: chain_an_def add_relationship_def add_entity_def new_chain_def
        empty_graph_def add_node_def add_edge_def has_node_def node_ids_def edge_keys_def Let_def
        update_node_attr_def no_node_attr_def actor_a_def narrative_n_def rel_def)

lemma wf_chain_an: "wf_chain chain_an"
  unfolding chain_an_def by (intro wf_chain_add_relationship wf_chain_add_entity wf_chain_new)

lemma rel_edges_chain_an: "rel_edges chain_an = {(''a'', ''n'')}"
  by (simp add: rel_edges_eq [OF wf_chain_an] edge_set_def graph_chain_an)

lemma thread_chain_an: "narrative_thread chain_an [''a'', ''n'']"
  by (simp add: narrative_thread_def simple_path_def rel_edges_chain_an entities_def
      graph_chain_an is_narrative_def get_entity_def narrative_n_def)

lemma no_narrative_chain_ab: "get_entities_by_type chain_ab ''Narrative'' = []"
  by (simp add: get_entities_by_type_def chain_ab_def entities_chain_two actor_a_def actor_b_def)


text \<open>
  The search on two small chains: the relationship \<open>a \<rightarrow> n\<close> gives one thread, and a
  Narrative without relationships, which is both a source and a sink, gives the
  thread of that single node.
\<close>

lemma narrative_threads_chain_an: "narrative_threads chain_an = Inr [[''a'', ''n'']]"
  by (simp add: narrative_threads_def get_entities_by_type_def graph_chain_an Let_def
      narrative_n_def actor_a_def source_nodes_def sink_nodes_def in_degree_def out_degree_def
      predecessors_def successors_def all_simple_paths_def has_node_def length_nodes
      simple_paths_from.simps)

lemma graph_chain_n:
  "node_ids (graph chain_n) = [''n'']"
  "edge_keys (graph chain_n) = []"
  "entities_dict chain_n = [(''n'', narrative_n)]"
    by (simp_all add: chain_n_def add_entity_def new_chain_def empty_graph_def add_node_def
        node_ids_def edge_keys_def narrative_n_def)

lemma narrative_threads_chain_n: "narrative_threads chain_n = Inr [[''n'']]"
  by (simp add: narrative_threads_def get_entities_by_type_def graph_chain_n Let_def
      narrative_n_def source_nodes_def sink_nodes_def in_degree_def out_degree_def
      predecessors_def successors_def all_simple_paths_def has_node_def length_nodes
      simple_paths_from.simps)

section \<open>The graph store: insertion\<close>

text \<open>
  Claim C4. For every chain and every relationship, \<^verbatim>\<open>add_relationship\<close> fails with a
  \<^verbatim>\<open>ValueError\<close> (the reference error of the store) exactly when the source id or the
  target id is not a key of the chain's entities, and then the chain is unchanged.
  Otherwise it succeeds and the edge from source to target carries the edge type,
  the optional resource id and the description of the relationship; every other edge
  and the entities are as before.
\<close>

theorem add_relationship_reference_check:
  "((\<exists>msg. fst (add_relationship c r) = Inl (ValueError msg)) \<longleftrightarrow> endpoint_missing c r)
   \<and> (endpoint_missing c r \<longrightarrow> snd (add_relationship c r) = c)
   \<and> (\<not> endpoint_missing c r \<longrightarrow>
        fst (add_relationship c r) = Inr ()
      \<and> map_of (edges (graph (snd (add_relationship c r)))) (source_id r, target_id r)
          = Some \<lparr>edge_type = Some (Relationship.edge_type r),
                  resource_id = Some (Relationship.resource_id r),
                  description = Some (Relationship.description r)\<rparr>
      \<and> (\<forall>k. k \<noteq> (source_id r, target_id r) \<longrightarrow>
            map_of (edges (graph (snd (add_relationship c r)))) k = map_of (edges (graph c)) k)
      \<and> entities (snd (add_relationship c r)) = entities c)"
  by (simp add: add_relationship_def endpoint_missing_def entities_def map_of_edges_add_edge)

theorem add_relationship_reference_check_witness:
  "fst (add_relationship chain_two (rel ''a'' ''nonexistent'')) \<noteq> Inr ()
   \<and> snd (add_relationship chain_two (rel ''a'' ''nonexistent'')) = chain_two
   \<and> fst (add_relationship chain_two (rel ''a'' ''b'')) = Inr ()
   \<and> map_of (edges (graph (snd (add_relationship chain_two (rel ''a'' ''b''))))) (''a'', ''b'')
        = Some \<lparr>edge_type = Some DEPENDENCY, resource_id = Some None, description = Some []\<rparr>"
proof -
  have miss: "endpoint_missing chain_two (rel ''a'' ''nonexistent'')"
    by (simp add: endpoint_missing_def entities_def entities_chain_two rel_def)
  have pres: "\<not> endpoint_missing chain_two (rel ''a'' ''b'')"
    by (simp add: endpoint_missing_def entities_def entities_chain_two rel_def)
  from miss add_relationship_reference_check [of chain_two "rel ''a'' ''nonexistent''"]
  have "fst (add_relationship chain_two (rel ''a'' ''nonexistent'')) \<noteq> Inr ()"
    and "snd (add_relationship chain_two (rel ''a'' ''nonexistent'')) = chain_two"
    by auto
  moreover from pres add_relationship_reference_check [of chain_two "rel ''a'' ''b''"]
  have "fst (add_relationship chain_two (rel ''a'' ''b'')) = Inr ()"
    and "map_of (edges (graph (snd (add_relationship chain_two (rel ''a'' ''b''))))) (''a'', ''b'')
        = Some \<lparr>edge_type = Some DEPENDENCY, resource_id = Some None, description = Some []\<rparr>"
    by (simp_all add: rel_def)
  ultimately show ?thesis by blast
qed


text \<open>
  Claim C10. For every chain, \<^verbatim>\<open>add_entity\<close> with an entity whose id is already in use
  cannot fail and stores the new entity under that id; every other id maps to the
  entity it had, the ids keep their order, and the edges and the list of relationships
  are the same, also those that start or end at the overwritten id.
\<close>

theorem add_entity_overwrite_frame:
  assumes wf: "wf_chain c" and used: "entity_id e \<in> set (map fst (entities c))"
  shows "get_entity (add_entity c e) (entity_id e) = Some e
       \<and> (\<forall>k. k \<noteq> entity_id e \<longrightarrow> get_entity (add_entity c e) k = get_entity c k)
       \<and> map fst (entities (add_entity c e)) = map fst (entities c)
       \<and> edges (graph (add_entity c e)) = edges (graph c)
       \<and> relationships (add_entity c e) = relationships c"
proof -
  have in_graph: "entity_id e \<in> set (node_ids (graph c))"
    using wf used by (simp add: wf_chain_def entities_def)
  have 1: "get_entity (add_entity c e) (entity_id e) = Some e"
    by (simp add: get_entity_def add_entity_def update_conv')
  have 2: "\<forall>k. k \<noteq> entity_id e \<longrightarrow> get_entity (add_entity c e) k = get_entity c k"
    by (simp add: get_entity_def add_entity_def map_of_update_other)
  have 3: "map fst (entities (add_entity c e)) = map fst (entities c)"
    using used by (simp add: entities_def add_entity_def map_fst_update)
  have 4: "edges (graph (add_entity c e)) = edges (graph c)"
    by (simp add: add_entity_def)
  have 5: "relationships (add_entity c e) = relationships c"
    using in_graph by (simp add: relationships_def add_entity_def edges_data_add_node)
  from 1 2 3 4 5 show ?thesis by blast
qed

theorem add_entity_overwrite_frame_witness:
  "get_entity (add_entity chain_ab target_a) ''a'' = Some target_a
   \<and> get_entity (add_entity chain_ab target_a) ''b'' = Some actor_b
   \<and> map fst (entities (add_entity chain_ab target_a)) = [''a'', ''b'']
   \<and> map source (relationships (add_entity chain_ab target_a)) = [''a'']
   \<and> map target (relationships (add_entity chain_ab target_a)) = [''b'']"
proof -
  have ents: "entities_dict chain_ab = [(''a'', actor_a), (''b'', actor_b)]"
    by (simp add: chain_ab_def add_relationship_def entities_chain_two rel_def)
  have used: "entity_id target_a \<in> set (map fst (entities chain_ab))"
    by (simp add: entities_def ents target_a_def)
  have rels: "map (\<lambda>r. (source r, target r)) (relationships chain_ab) = [(''a'', ''b'')]"
    by (simp add: chain_ab_def chain_two_def add_relationship_def add_entity_def new_chain_def actor_a_def
        actor_b_def rel_def relationships_def edges_data_def node_ids_def add_node_def
        add_edge_def has_node_def empty_graph_def Let_def)
  have id_a: "entity_id target_a = ''a''" by (simp add: target_a_def)
  note fr = add_entity_overwrite_frame [OF wf_chain_ab used, unfolded id_a]
  have b: "get_entity chain_ab ''b'' = Some actor_b"
    by (simp add: get_entity_def ents)
  from fr have "get_entity (add_entity chain_ab target_a) ''b'' = get_entity chain_ab ''b''"
    by simp
  moreover from fr have "map fst (entities (add_entity chain_ab target_a)) = map fst (entities chain_ab)"
    by simp
  moreover from fr have "relationships (add_entity chain_ab target_a) = relationships chain_ab"
    by simp
  moreover have "map source (relationships chain_ab) = [''a'']" "map target (relationships chain_ab) = [''b'']"
    using rels by (auto simp: map_eq_Cons_conv)
  ultimately show ?thesis using fr b by (simp add: entities_def ents)
qed

section \<open>Ordering queries: the claims\<close>

text \<open>
  Claim C1, as amended. For every chain whose relationship graph has no directed
  cycle, \<^verbatim>\<open>get_chain\<close> returns a list that is a permutation of the entity ids, and the
  source of every relationship stands before its target in it.
\<close>

theorem get_chain_topological_order:
  assumes "wf_chain c" and "acyclic (rel_edges c)"
  shows "\<exists>xs. get_chain c = Inr xs \<and> mset xs = mset (map fst (entities c)) \<and>
           (\<forall>r \<in> set (relationships c). list_index (source r) xs < list_index (target r) xs)"
  using assms by (rule get_chain_acyclic)

theorem get_chain_topological_order_witness:
  "\<exists>xs. get_chain chain_ab = Inr xs \<and> mset xs = mset [''a'', ''b''] \<and>
        list_index ''a'' xs < list_index ''b'' xs"
proof -
  from get_chain_topological_order [OF wf_chain_ab acyclic_chain_ab] obtain xs where
    1: "get_chain chain_ab = Inr xs" and 2: "mset xs = mset (map fst (entities chain_ab))"
    and 3: "\<forall>r \<in> set (relationships chain_ab). list_index (source r) xs < list_index (target r) xs"
    by blast
  from relationships_chain_ab obtain r where "r \<in> set (relationships chain_ab)"
    "source r = ''a''" "target r = ''b''" by (auto simp: map_eq_Cons_conv)
  with 3 have "list_index ''a'' xs < list_index ''b'' xs" by auto
  moreover have "map fst (entities chain_ab) = [''a'', ''b'']"
    by (simp add: entities_def chain_ab_def entities_chain_two)
  ultimately show ?thesis using 1 2 by auto
qed

text \<open>
  On the cycle \<open>a \<rightarrow> b \<rightarrow> a\<close>, \<^verbatim>\<open>get_chain\<close> returns no list: it raises the error
  for cyclic chains.
\<close>

theorem get_chain_cyclic_counterexample:
  "wf_chain chain_cycle \<and> get_chain chain_cycle = Inl cycle_error"
  using wf_chain_cycle cyclic_queries(2) [OF wf_chain_cycle cyclic_chain_cycle] by simp

text \<open>
  Claim C2. For every chain whose relationship graph contains a directed cycle,
  \<^verbatim>\<open>is_valid_dag\<close> returns \<^verbatim>\<open>False\<close>, and \<^verbatim>\<open>get_chain\<close> and \<^verbatim>\<open>get_critical_path\<close> both
  raise the \<^verbatim>\<open>ValueError\<close> for cyclic chains; an error is the whole outcome, so no
  partial result is returned.
\<close>

theorem cycle_rejected:
  assumes "wf_chain c" and "\<not> acyclic (rel_edges c)"
  shows "is_valid_dag c = Inr False \<and> get_chain c = Inl cycle_error
       \<and> get_critical_path bf c = Inl cycle_error"
  using cyclic_queries [OF assms] by simp

theorem cycle_rejected_witness:
  "is_valid_dag chain_cycle = Inr False \<and> get_chain chain_cycle = Inl cycle_error
   \<and> (\<forall>bf. get_critical_path bf chain_cycle = Inl cycle_error)"
  using cycle_rejected [OF wf_chain_cycle cyclic_chain_cycle] by simp

text \<open>
  Claim C9, as amended. For every chain without a zero-in-degree node or without a
  zero-out-degree node, \<^verbatim>\<open>get_critical_path\<close> returns the empty list when the chain is
  empty and raises the error for cyclic chains otherwise: such a chain with a node is
  cyclic, the acyclicity check comes first, and the branch that would return a
  topological order is never taken with a node in the chain.
\<close>

theorem critical_path_without_source_or_sink:
  assumes "wf_chain c"
    and "source_nodes (graph c) = [] \<or> sink_nodes (graph c) = []"
  shows "get_critical_path bf c = (if nodes (graph c) = [] then Inr [] else Inl cycle_error)"
proof (cases "nodes (graph c) = []")
  case True
  from assms(1) have wfg: "wf_graph (graph c)" by (simp add: wf_chain_def)
  from True have "edge_keys (graph c) = []"
    using wfg by (cases "edge_keys (graph c)") (auto simp: wf_graph_def node_ids_def)
  then have "acyclic (edge_set (graph c))" by (simp add: edge_set_def)
  with True show ?thesis
    by (simp add: get_critical_path_def is_directed_acyclic_graph_iff [OF wfg])
next
  case False
  from no_source_or_sink_cyclic [OF assms(1) False assms(2)]
  have "get_critical_path bf c = Inl cycle_error"
    by (rule cyclic_queries(3) [OF assms(1)])
  with False show ?thesis by simp
qed

theorem critical_path_without_source_or_sink_witness:
  "source_nodes (graph chain_cycle) = []
   \<and> (\<forall>bf. get_critical_path bf chain_cycle = Inl cycle_error)
   \<and> (\<forall>bf. get_critical_path bf (new_chain ''e'' ''E'' []) = Inr [])"
proof -
  have ne: "nodes (graph chain_cycle) \<noteq> []"
    using node_ids_chain_cycle by (auto simp: node_ids_def)
  have e: "nodes (graph (new_chain ''e'' ''E'' [])) = []"
    by (simp add: new_chain_def empty_graph_def)
  have se: "source_nodes (graph (new_chain ''e'' ''E'' [])) = []"
    by (simp add: source_nodes_def)
  from critical_path_without_source_or_sink [OF wf_chain_cycle disjI1 [OF sources_chain_cycle]] ne
  have "\<forall>bf. get_critical_path bf chain_cycle = Inl cycle_error" by simp
  moreover from critical_path_without_source_or_sink [OF wf_chain_new disjI1 [OF se]] e
  have "\<forall>bf. get_critical_path bf (new_chain ''e'' ''E'' []) = Inr []" by simp
  ultimately show ?thesis using sources_chain_cycle by simp
qed

text \<open>
  The cycle \<open>a \<rightarrow> b \<rightarrow> a\<close> has no zero-in-degree node, and \<^verbatim>\<open>get_critical_path\<close>
  returns no order for it, whatever the shortest-path search of the library does.
\<close>

theorem critical_path_fallback_counterexample:
  "source_nodes (graph chain_cycle) = []
   \<and> (\<forall>bf. \<not> (\<exists>order. get_critical_path bf chain_cycle = Inr order))"
  using sources_chain_cycle cyclic_queries(3) [OF wf_chain_cycle cyclic_chain_cycle] by simp

section \<open>The critical path and the ids of the virtual nodes\<close>

text \<open>
  \<^verbatim>\<open>get_critical_path\<close> names its virtual source and sink \<^verbatim>\<open>__src__\<close> and \<^verbatim>\<open>__sink__\<close>,
  in the namespace of the entity ids, and removes both names from the path it
  returns.
\<close>

lemma node_ids_chain_sentinel: "node_ids (graph chain_sentinel) = [''__sink__'']"
  by (simp add: chain_sentinel_def node_ids_add_entity actor_sink_def)

lemma edges_chain_sentinel: "edges (graph chain_sentinel) = []"
  by (simp add: chain_sentinel_def add_entity_def new_chain_def empty_graph_def)

lemma wf_chain_sentinel: "wf_chain chain_sentinel"
  unfolding chain_sentinel_def by (intro wf_chain_add_entity wf_chain_new)

lemma dag_chain_sentinel: "is_directed_acyclic_graph (graph chain_sentinel) = Inr True"
proof -
  from wf_chain_sentinel have "wf_graph (graph chain_sentinel)" by (simp add: wf_chain_def)
  then show ?thesis
    by (simp add: is_directed_acyclic_graph_iff edge_set_def edge_keys_def edges_chain_sentinel)
qed

lemma sources_chain_sentinel: "source_nodes (graph chain_sentinel) = [''__sink__'']"
  by (simp add: source_nodes_def node_ids_chain_sentinel in_degree_def predecessors_def
      edge_keys_def edges_chain_sentinel)

lemma sinks_chain_sentinel: "sink_nodes (graph chain_sentinel) = [''__sink__'']"
  by (simp add: sink_nodes_def node_ids_chain_sentinel out_degree_def successors_def
      edge_keys_def edges_chain_sentinel)

lemma virtual_graph_chain_sentinel:
  "edge_keys (virtual_graph (graph chain_sentinel))
     = [(''__src__'', ''__sink__''), (''__sink__'', ''__sink__'')]"
  using node_ids_chain_sentinel
  by (simp add: virtual_graph_def sources_chain_sentinel sinks_chain_sentinel copy_def
      edges_data_def edges_chain_sentinel edge_keys_add_edge node_ids_add_edge
      edge_keys_def [of "\<lparr>nodes = _, edges = _\<rparr>"])

lemma get_critical_path_chain_sentinel:
  "get_critical_path bf chain_sentinel =
     (case bf (virtual_graph (graph chain_sentinel)) ''__src__'' ''__sink__'' (weight chain_sentinel) of
        Inr path \<Rightarrow> Inr (filter (\<lambda>n. n \<notin> {''__src__'', ''__sink__''}) path)
      | Inl NetworkXNoPath \<Rightarrow> Inr []
      | Inl e \<Rightarrow> Inl e)"
proof -
  have "nodes (graph chain_sentinel) \<noteq> []"
    using node_ids_chain_sentinel by (auto simp: node_ids_def)
  then show ?thesis
    by (simp add: get_critical_path_def dag_chain_sentinel sources_chain_sentinel
        sinks_chain_sentinel)
qed

text \<open>
  Claim C3 at a failing input. The chain whose only entity is an Actor with id
  \<^verbatim>\<open>__sink__\<close> is acyclic; its only path from a zero-in-degree node to a
  zero-out-degree node is the single node \<^verbatim>\<open>__sink__\<close>. \<^verbatim>\<open>add_node\<close> finds the name in
  use, so the virtual sink is the entity itself and gets a self-loop. Whatever the
  shortest-path search returns, \<^verbatim>\<open>get_critical_path\<close> never returns that path; when
  the search returns the direct path from \<^verbatim>\<open>__src__\<close> to \<^verbatim>\<open>__sink__\<close>, the result is
  the empty list.
\<close>

theorem critical_path_sentinel_collision:
  "node_ids (graph chain_sentinel) = [''__sink__'']
   \<and> edge_keys (virtual_graph (graph chain_sentinel))
       = [(''__src__'', ''__sink__''), (''__sink__'', ''__sink__'')]
   \<and> (\<forall>bf. get_critical_path bf chain_sentinel \<noteq> Inr [''__sink__''])
   \<and> get_critical_path (\<lambda>g s t w. Inr [s, t]) chain_sentinel = Inr []"
proof -
  have "get_critical_path bf chain_sentinel \<noteq> Inr [''__sink__'']" for bf
  proof
    assume a: "get_critical_path bf chain_sentinel = Inr [''__sink__'']"
    have "''__sink__'' \<in> set [''__sink__'']" by simp
    also from a have "[''__sink__''] = filter (\<lambda>n. n \<notin> {''__src__'', ''__sink__''})
        (case bf (virtual_graph (graph chain_sentinel)) ''__src__'' ''__sink__'' (weight chain_sentinel) of
           Inr path \<Rightarrow> path | Inl e \<Rightarrow> [])"
      unfolding get_critical_path_chain_sentinel
      by (auto split: sum.splits py_error.splits)
    finally show False by simp
  qed
  moreover have "get_critical_path (\<lambda>g s t w. Inr [s, t]) chain_sentinel = Inr []"
    unfolding get_critical_path_chain_sentinel by simp
  ultimately show ?thesis
    using node_ids_chain_sentinel virtual_graph_chain_sentinel by blast
qed

section \<open>The intervention score\<close>

text \<open>
  Claim C6. For every chain and every node id of the chain, \<^verbatim>\<open>intervention_score\<close>
  returns the number of elements of the node's descendant set: the nodes, other than
  the node itself, that its outgoing edges reach in one or more steps. A node from
  which no node can be reached has the score 0.
\<close>

theorem intervention_score_descendants:
  assumes "wf_chain c" and "n \<in> set (map fst (entities c))"
  shows "intervention_score c n = Inr (int (card (descendant_set (rel_edges c) n)))
       \<and> ((\<forall>v. (n, v) \<notin> (rel_edges c)\<^sup>+) \<longrightarrow> intervention_score c n = Inr 0)"
proof -
  have 1: "intervention_score c n = Inr (int (card (descendant_set (rel_edges c) n)))"
    using assms by (rule intervention_score_card)
  have "descendant_set (rel_edges c) n = {}" if "\<forall>v. (n, v) \<notin> (rel_edges c)\<^sup>+"
    using that by (simp add: descendant_set_def)
  with 1 show ?thesis by simp
qed

theorem intervention_score_descendants_witness:
  "intervention_score chain_ab ''a'' = Inr 1 \<and> intervention_score chain_ab ''b'' = Inr 0"
proof -
  have ids: "map fst (entities chain_ab) = [''a'', ''b'']"
    by (simp add: entities_def chain_ab_def entities_chain_two)
  have a: "''a'' \<in> set (map fst (entities chain_ab))" and b: "''b'' \<in> set (map fst (entities chain_ab))"
    by (simp_all add: ids)
  from intervention_score_descendants [OF wf_chain_ab a]
  have "intervention_score chain_ab ''a'' = Inr 1"
    by (simp add: descendant_set_chain_ab)
  moreover from intervention_score_descendants [OF wf_chain_ab b]
  have "intervention_score chain_ab ''b'' = Inr 0"
    by (simp add: descendant_set_chain_ab)
  ultimately show ?thesis by simp
qed

section \<open>Narrative threads\<close>

text \<open>
  Claim C7. For every chain, \<^verbatim>\<open>narrative_threads\<close> returns, each once, exactly the simple
  directed paths (no node twice) from a node without incoming relationships to a node
  without outgoing relationships that have a Narrative entity on them, as lists of
  node ids. For a chain without Narrative entities it returns the empty list.
\<close>

theorem narrative_threads_exact:
  assumes "wf_chain c"
  shows "\<exists>ts. narrative_threads c = Inr ts \<and> distinct ts \<and> set ts = {p. narrative_thread c p}
           \<and> (get_entities_by_type c ''Narrative'' = [] \<longrightarrow> ts = [])"
proof -
  from narrative_threads_ok [OF assms] obtain ts where
    ts: "narrative_threads c = Inr ts" "distinct ts" "set ts = {p. narrative_thread c p}" by blast
  have "ts = []" if "get_entities_by_type c ''Narrative'' = []"
    using that ts(1) by (simp add: narrative_threads_def)
  with ts show ?thesis by blast
qed

theorem narrative_threads_exact_witness:
  "(\<exists>ts. narrative_threads chain_an = Inr ts \<and> distinct ts \<and> [''a'', ''n''] \<in> set ts)
   \<and> narrative_threads chain_ab = Inr []"
proof -
  from narrative_threads_exact [OF wf_chain_an] obtain ts where
    "narrative_threads chain_an = Inr ts" "distinct ts" "set ts = {p. narrative_thread chain_an p}"
    by blast
  with thread_chain_an
  have 1: "\<exists>ts. narrative_threads chain_an = Inr ts \<and> distinct ts \<and> [''a'', ''n''] \<in> set ts"
    by blast
  from narrative_threads_exact [OF wf_chain_ab] no_narrative_chain_ab
  have 2: "narrative_threads chain_ab = Inr []" by auto
  from 1 2 show ?thesis by simp
qed


end
